theory Spec2Isabelle
  imports Main
begin

text \<open>
  A model of the search engine of the sudoku program: the validator \<open>can_place\<close>, the
  solver \<open>Solver.solve\<close> with its entry \<open>init_solve\<close>, the uniqueness test
  \<open>Solver.unique\<close>, and the generator \<open>Generator.generate\<close> with \<open>remove_numbers\<close>. The two
  source files define these functions alike; where they differ in layout the model
  follows the common behaviour. The first part is the model, the second part the
  vocabulary of the statements, then come the proofs and the theorems.
\<close>

section \<open>Boards\<close>

text \<open>
  The program keeps a sudoku board in a two-dimensional numpy array of integers, where
  0 marks an empty cell. The model is a list of rows. A read \<open>board[y][x]\<close> outside the
  array raises IndexError in the program, so reads and writes return a sum. Coordinates
  are the non-negative indices that \<open>np.ndenumerate\<close>, \<open>np.nonzero\<close> and \<open>range\<close> produce.
\<close>

type_synonym board = "int list list"

datatype error = IndexError | TypeError | AttributeError

definition cell :: "board \<Rightarrow> nat \<Rightarrow> nat \<Rightarrow> error + int" where
  "cell board y x =
     (if y < length board \<and> x < length (board ! y) then Inr (board ! y ! x)
      else Inl IndexError)"

definition set_cell :: "board \<Rightarrow> nat \<Rightarrow> nat \<Rightarrow> int \<Rightarrow> error + board" where
  "set_cell board y x v =
     (if y < length board \<and> x < length (board ! y)
      then Inr (board[y := (board ! y)[x := v]])
      else Inl IndexError)"

definition is_board :: "board \<Rightarrow> bool" where
  "is_board board = (length board = 9 \<and> list_all (\<lambda>r. length r = 9) board)"

section \<open>The validator\<close>

text \<open>
  \<open>can_place\<close> scans \<open>i = 0..8\<close>, comparing \<open>board[y][i]\<close> and then \<open>board[i][x]\<close> with the
  value, and then the 3x3 square, column offset \<open>i\<close> outermost and row offset \<open>j\<close>
  innermost. It returns False at the first equal cell.
\<close>

fun scan_lines :: "nat \<Rightarrow> nat \<Rightarrow> int \<Rightarrow> board \<Rightarrow> nat list \<Rightarrow> error + bool" where
  "scan_lines y x v board [] = Inr True"
| "scan_lines y x v board (i # rest) =
     (case cell board y i of
        Inl e \<Rightarrow> Inl e
      | Inr n \<Rightarrow>
          if n = v then Inr False
          else (case cell board i x of
                  Inl e \<Rightarrow> Inl e
                | Inr m \<Rightarrow> if m = v then Inr False else scan_lines y x v board rest))"

fun scan_square :: "nat \<Rightarrow> nat \<Rightarrow> int \<Rightarrow> board \<Rightarrow> (nat \<times> nat) list \<Rightarrow> error + bool" where
  "scan_square square_y square_x v board [] = Inr True"
| "scan_square square_y square_x v board ((i, j) # rest) =
     (case cell board (square_y + j) (square_x + i) of
        Inl e \<Rightarrow> Inl e
      | Inr n \<Rightarrow> if n = v then Inr False else scan_square square_y square_x v board rest)"

definition can_place :: "nat \<Rightarrow> nat \<Rightarrow> int \<Rightarrow> board \<Rightarrow> error + bool" where
  "can_place y x v board =
     (case scan_lines y x v board [0..<9] of
        Inl e \<Rightarrow> Inl e
      | Inr False \<Rightarrow> Inr False
      | Inr True \<Rightarrow>
          (let square_x = x div 3 * 3;
               square_y = y div 3 * 3
           in scan_square square_y square_x v board (List.product [0..<3] [0..<3])))"

section \<open>Program state and randomness\<close>

text \<open>
  One record holds the mutable state the search reads and writes: \<open>Solver.solution\<close>,
  \<open>Generator.clues\<close> (0 at construction, afterwards a value of \<open>random.randint\<close> with
  positive bounds, hence a natural number), \<open>Application.puzzle\<close>, and the state of the
  module \<open>random\<close>. The random source is the list of raw draws still to come;
  \<open>randrange n\<close> consumes one draw and reduces it modulo \<open>n\<close>, and an exhausted list
  keeps answering 0. Every finite run of the program is the run of the model on some
  list. Two further fields do not exist in the program; they only observe it:
  \<open>deepest\<close> is the greatest nesting level at which \<open>solve\<close> has been entered, and
  \<open>solve_calls\<close> counts the calls of \<open>init_solve\<close>.
\<close>

record app =
  solution :: "board option"
  clues :: nat
  puzzle :: "board option"
  rng :: "nat list"
  deepest :: nat
  solve_calls :: nat

definition randrange :: "nat \<Rightarrow> app \<Rightarrow> nat \<times> app" where
  "randrange n w =
     (case rng w of
        [] \<Rightarrow> (0, w)
      | r # rest \<Rightarrow> (r mod n, w\<lparr>rng := rest\<rparr>))"

definition randint :: "nat \<Rightarrow> nat \<Rightarrow> app \<Rightarrow> nat \<times> app" where
  "randint lo hi w = (let (k, w') = randrange (hi - lo + 1) w in (lo + k, w'))"

text \<open>\<open>xs.pop(random.randrange(len(xs)))\<close>, only ever run on a non-empty list.\<close>

definition pop_random :: "'a list \<Rightarrow> app \<Rightarrow> 'a \<times> 'a list \<times> app" where
  "pop_random xs w =
     (let (k, w') = randrange (length xs) w
      in (xs ! k, take k xs @ drop (Suc k) xs, w'))"

text \<open>\<open>np.zeros((9, 9), int)\<close>, the empty board.\<close>

definition zeros :: board where
  "zeros = replicate 9 (replicate 9 0)"

text \<open>
  The state of a freshly constructed application: no solution, clue target 0, an empty
  puzzle, and a given list of random draws.
\<close>

definition new_app :: "nat list \<Rightarrow> app" where
  "new_app draws =
     \<lparr>solution = None, clues = 0, puzzle = Some zeros, rng = draws, deepest = 0, solve_calls = 0\<rparr>"

section \<open>The solver\<close>

text \<open>
  \<open>np.ndenumerate\<close> lists the cells in row-major order with their coordinates; \<open>solve\<close>
  works on the first empty one. The inner \<open>while numbers\<close> loop is \<open>try_numbers\<close>: it
  carries the local copy \<open>sudoku\<close>, which keeps the last value written to the cell when
  the recursive call comes back without a solution. The parameter \<open>level\<close> is the number
  of enclosing \<open>solve\<close> frames; it only feeds the observer field \<open>deepest\<close>.
\<close>

definition ndenumerate :: "board \<Rightarrow> ((nat \<times> nat) \<times> int) list" where
  "ndenumerate board =
     concat (map (\<lambda>y. map (\<lambda>x. ((y, x), board ! y ! x)) [0..<length (board ! y)])
                 [0..<length board])"

definition first_zero :: "board \<Rightarrow> (nat \<times> nat) option" where
  "first_zero board = map_option fst (find (\<lambda>(c, n). n = 0) (ndenumerate board))"

function solve :: "nat \<Rightarrow> board \<Rightarrow> app \<Rightarrow> error + app"
  and try_numbers :: "nat \<Rightarrow> nat \<Rightarrow> nat \<Rightarrow> int list \<Rightarrow> board \<Rightarrow> app \<Rightarrow> error + app"
where
  "solve level board w0 =
     (let w = w0\<lparr>deepest := max (deepest w0) level\<rparr>;
          sudoku = board
      in case first_zero sudoku of
           Some (y, x) \<Rightarrow> try_numbers level y x [1..9] sudoku w
         | None \<Rightarrow> Inr (w\<lparr>solution := Some sudoku\<rparr>))"
| "try_numbers level y x numbers sudoku w =
     (if numbers = [] then Inr w
      else
        let (num, numbers', w1) = pop_random numbers w
        in if solution w1 = None then
             (case can_place y x num sudoku of
                Inl e \<Rightarrow> Inl e
              | Inr False \<Rightarrow> try_numbers level y x numbers' sudoku w1
              | Inr True \<Rightarrow>
                  (case set_cell sudoku y x num of
                     Inl e \<Rightarrow> Inl e
                   | Inr sudoku' \<Rightarrow>
                       (case solve (Suc level) sudoku' w1 of
                          Inl e \<Rightarrow> Inl e
                        | Inr w2 \<Rightarrow> try_numbers level y x numbers' sudoku' w2)))
           else Inr w1)"
  by pat_completeness auto

section \<open>Drawing\<close>

text \<open>
  \<open>MainCanvas.draw_puzzle\<close> belongs to the user interface. The model keeps its first two
  statements, which run before anything is drawn: a missing current board is replaced
  by the previous one, and the two boards are subtracted, which raises TypeError when
  one of them is None. Whenever the program calls it the two arrays have one shape.
  The drawing itself changes nothing in the state.
\<close>

definition draw_puzzle :: "board option \<Rightarrow> board option \<Rightarrow> error + unit" where
  "draw_puzzle current_board previous_board =
     (let current_board = (if current_board = None then previous_board else current_board)
      in case (current_board, previous_board) of
           (Some c, Some p) \<Rightarrow> Inr ()
         | _ \<Rightarrow> Inl TypeError)"

section \<open>The uniqueness test\<close>

text \<open>
  \<open>init_solve\<close> clears the solution slot, runs \<open>solve\<close> and, when asked, draws the result.
  \<open>differs\<close> is \<open>np.any(self.solution - first_solution)\<close>: subtracting with None raises
  TypeError, and on two arrays of one shape a difference is non-zero exactly where the
  cells differ (also in 64-bit wrap-around arithmetic). \<open>unique_loop\<close> is the loop
  \<open>for i in range(depth)\<close>, counting the rounds that remain.
\<close>

definition init_solve :: "board \<Rightarrow> bool \<Rightarrow> app \<Rightarrow> error + app" where
  "init_solve board drawing w =
     (case solve 0 board (w\<lparr>solution := None, solve_calls := Suc (solve_calls w)\<rparr>) of
        Inl e \<Rightarrow> Inl e
      | Inr w' \<Rightarrow>
          if drawing then
            (case draw_puzzle (solution w') (puzzle w') of
               Inl e \<Rightarrow> Inl e
             | Inr u \<Rightarrow> Inr w')
          else Inr w')"

definition differs :: "board option \<Rightarrow> board option \<Rightarrow> error + bool" where
  "differs a b =
     (case (a, b) of
        (Some s, Some f) \<Rightarrow> Inr (list_ex (\<lambda>d. d \<noteq> 0) (concat (map2 (map2 (-)) s f)))
      | _ \<Rightarrow> Inl TypeError)"

fun unique_loop :: "board \<Rightarrow> board option \<Rightarrow> nat \<Rightarrow> app \<Rightarrow> error + (bool \<times> app)" where
  "unique_loop board first_solution 0 w = Inr (True, w)"
| "unique_loop board first_solution (Suc n) w =
     (case init_solve board False w of
        Inl e \<Rightarrow> Inl e
      | Inr w1 \<Rightarrow>
          (case differs (solution w1) first_solution of
             Inl e \<Rightarrow> Inl e
           | Inr True \<Rightarrow> Inr (False, w1)
           | Inr False \<Rightarrow> unique_loop board first_solution n w1))"

definition unique :: "board \<Rightarrow> nat \<Rightarrow> app \<Rightarrow> error + (bool \<times> app)" where
  "unique board depth w =
     (case init_solve board False w of
        Inl e \<Rightarrow> Inl e
      | Inr w1 \<Rightarrow> unique_loop board (solution w1) depth w1)"

section \<open>The generator\<close>

text \<open>
  \<open>remove_numbers\<close> copies its arguments, and while more cells are filled than
  \<open>clues\<close> it runs \<open>remove_loop\<close>, the loop \<open>while indices\<close>. \<open>skip_excluded\<close> is the
  inner loop that pops further coordinates while the current one is blacklisted and
  coordinates remain. The test \<open>if indices\<close> that follows looks at the remaining
  list, not at the coordinate just popped.
\<close>

definition generator_depth :: "nat \<times> nat" where
  "generator_depth = (5, 12)"

definition count_nonzero :: "board \<Rightarrow> nat" where
  "count_nonzero board = length (filter (\<lambda>n. n \<noteq> 0) (concat board))"

definition nonzero_indices :: "board \<Rightarrow> (nat \<times> nat) list" where
  "nonzero_indices board = map fst (filter (\<lambda>(c, n). n \<noteq> 0) (ndenumerate board))"

function skip_excluded ::
  "nat \<times> nat \<Rightarrow> (nat \<times> nat) list \<Rightarrow> (nat \<times> nat) list \<Rightarrow> app
     \<Rightarrow> (nat \<times> nat) \<times> (nat \<times> nat) list \<times> app" where
  "skip_excluded c indices excluded_nums w =
     (if c \<in> set excluded_nums \<and> indices \<noteq> [] then
        let (c', indices', w') = pop_random indices w
        in skip_excluded c' indices' excluded_nums w'
      else (c, indices, w))"
  by pat_completeness auto

function remove_numbers ::
    "board \<Rightarrow> (nat \<times> nat) list \<Rightarrow> app \<Rightarrow> error + (board option \<times> app)"
  and remove_loop ::
    "nat \<Rightarrow> (nat \<times> nat) list \<Rightarrow> board \<Rightarrow> (nat \<times> nat) list \<Rightarrow> app
       \<Rightarrow> error + (board option \<times> app)"
where
  "remove_numbers board excluded w =
     (let sudoku = board;
          excluded_nums = excluded
      in if count_nonzero sudoku > clues w then
           let depth = (if count_nonzero sudoku = clues w + 1
                        then snd generator_depth else fst generator_depth);
               indices = nonzero_indices sudoku
           in remove_loop depth indices sudoku excluded_nums w
         else Inr (Some sudoku, w))"
| "remove_loop depth indices sudoku excluded_nums w =
     (if indices = [] then Inr (None, w)
      else
        let (c0, indices1, w1) = pop_random indices w;
            (c, indices2, w2) = skip_excluded c0 indices1 excluded_nums w1
        in if indices2 \<noteq> [] then
             (case c of (y, x) \<Rightarrow>
                (case cell sudoku y x of
                   Inl e \<Rightarrow> Inl e
                 | Inr n \<Rightarrow>
                     (case set_cell sudoku y x 0 of
                        Inl e \<Rightarrow> Inl e
                      | Inr sudoku0 \<Rightarrow>
                          (case unique sudoku0 depth w2 of
                             Inl e \<Rightarrow> Inl e
                           | Inr (u, w3) \<Rightarrow>
                               (case (if u then remove_numbers sudoku0 excluded_nums w3
                                      else Inr (None, w3)) of
                                  Inl e \<Rightarrow> Inl e
                                | Inr (Some next_layer, w4) \<Rightarrow> Inr (Some next_layer, w4)
                                | Inr (None, w4) \<Rightarrow>
                                    (let excluded_nums' = excluded_nums @ [(y, x)]
                                     in if length excluded_nums' > clues w4 then Inr (None, w4)
                                        else (case set_cell sudoku0 y x n of
                                                Inl e \<Rightarrow> Inl e
                                              | Inr sudoku_n \<Rightarrow>
                                                  remove_loop depth indices2 sudoku_n
                                                    excluded_nums' w4)))))))
           else remove_loop depth indices2 sudoku excluded_nums w2)"
  by pat_completeness auto

text \<open>
  \<open>generate\<close> picks the clue target by three independent tests of the difficulty, solves
  the empty board, removes numbers from the solution, stores the result in \<open>puzzle\<close> and
  draws it. \<open>board.copy()\<close> on None raises AttributeError. When the removal has returned
  None, the drawing raises TypeError.
\<close>

definition generate :: "string \<Rightarrow> app \<Rightarrow> error + app" where
  "generate difficulty w0 =
     (let w1 = (if difficulty = ''easy''
                then (let (c, w) = randint 40 50 w0 in w\<lparr>clues := c\<rparr>) else w0);
          w2 = (if difficulty = ''medium''
                then (let (c, w) = randint 32 40 w1 in w\<lparr>clues := c\<rparr>) else w1);
          w3 = (if difficulty = ''hard''
                then (let (c, w) = randint 25 32 w2 in w\<lparr>clues := c\<rparr>) else w2);
          board = zeros
      in case init_solve board False w3 of
           Inl e \<Rightarrow> Inl e
         | Inr w4 \<Rightarrow>
             (case solution w4 of
                None \<Rightarrow> Inl AttributeError
              | Some board' \<Rightarrow>
                  (case remove_numbers board' [] w4 of
                     Inl e \<Rightarrow> Inl e
                   | Inr (board'', w5) \<Rightarrow>
                       (case draw_puzzle board'' board'' of
                          Inl e \<Rightarrow> Inl e
                        | Inr u \<Rightarrow> Inr (w5\<lparr>puzzle := board''\<rparr>)))))"

section \<open>Vocabulary of the statements\<close>

text \<open>The cells of a row, of a column and of the 3x3 box that contains a cell.\<close>

definition row_cells :: "board \<Rightarrow> nat \<Rightarrow> int list" where
  "row_cells board y = map (\<lambda>i. board ! y ! i) [0..<9]"

definition col_cells :: "board \<Rightarrow> nat \<Rightarrow> int list" where
  "col_cells board x = map (\<lambda>i. board ! i ! x) [0..<9]"

definition box_cells :: "board \<Rightarrow> nat \<Rightarrow> nat \<Rightarrow> int list" where
  "box_cells board y x =
     map (\<lambda>(i, j). board ! (y div 3 * 3 + j) ! (x div 3 * 3 + i)) (List.product [0..<3] [0..<3])"

text \<open>
  The 27 units of a grid are its rows, its columns and its 3x3 boxes. A grid repeats no
  value when the filled cells of every unit are pairwise different. \<open>cells_in\<close> bounds
  every cell, \<open>populated\<close> says that no cell is empty, and \<open>preserved board s\<close> says that
  \<open>s\<close> holds the value of \<open>board\<close> in every cell that \<open>board\<close> has filled.
\<close>

definition units :: "board \<Rightarrow> int list list" where
  "units board =
     map (row_cells board) [0..<9] @ map (col_cells board) [0..<9] @
     map (\<lambda>(by, bx). box_cells board (3 * by) (3 * bx)) (List.product [0..<3] [0..<3])"

definition no_repeats :: "board \<Rightarrow> bool" where
  "no_repeats board = list_all (\<lambda>u. distinct (filter (\<lambda>n. n \<noteq> 0) u)) (units board)"

definition cells_in :: "int \<Rightarrow> int \<Rightarrow> board \<Rightarrow> bool" where
  "cells_in lo hi board = list_all (list_all (\<lambda>n. lo \<le> n \<and> n \<le> hi)) board"

definition populated :: "board \<Rightarrow> bool" where
  "populated board = list_all (list_all (\<lambda>n. n \<noteq> 0)) board"

definition preserved :: "board \<Rightarrow> board \<Rightarrow> bool" where
  "preserved board s = list_all2 (list_all2 (\<lambda>n m. n = 0 \<or> m = n)) board s"

text \<open>
  Two cells see each other when they share a row, a column or a 3x3 box. The validator
  answers whether a value differs from every cell that the target cell sees.
\<close>

definition same_unit :: "nat \<Rightarrow> nat \<Rightarrow> nat \<Rightarrow> nat \<Rightarrow> bool" where
  "same_unit y x y' x' = (y = y' \<or> x = x' \<or> (y div 3 = y' div 3 \<and> x div 3 = x' div 3))"

definition free_for :: "board \<Rightarrow> nat \<Rightarrow> nat \<Rightarrow> int \<Rightarrow> bool" where
  "free_for board y x v = (\<forall>y'<9. \<forall>x'<9. same_unit y x y' x' \<longrightarrow> board ! y' ! x' \<noteq> v)"

text \<open>
  Pointwise forms of the properties of a grid: every cell filled; one grid keeps the
  filled cells of another; every cell holds 0..9; no filled cell has its value again in
  a cell it sees.
\<close>

definition filled :: "board \<Rightarrow> bool" where
  "filled board = (\<forall>y<9. \<forall>x<9. board ! y ! x \<noteq> 0)"

definition extends :: "board \<Rightarrow> board \<Rightarrow> bool" where
  "extends board s = (\<forall>y<9. \<forall>x<9. board ! y ! x \<noteq> 0 \<longrightarrow> s ! y ! x = board ! y ! x)"

definition digits :: "board \<Rightarrow> bool" where
  "digits board = (\<forall>y<9. \<forall>x<9. 0 \<le> board ! y ! x \<and> board ! y ! x \<le> 9)"

definition conflict_free :: "board \<Rightarrow> bool" where
  "conflict_free board =
     (\<forall>y<9. \<forall>x<9. \<forall>y'<9. \<forall>x'<9.
        board ! y ! x \<noteq> 0 \<and> (y \<noteq> y' \<or> x \<noteq> x') \<and> same_unit y x y' x'
          \<longrightarrow> board ! y ! x \<noteq> board ! y' ! x')"

text \<open>
  A completion of a board is a filled, conflict-free grid of digits that keeps the
  board's filled cells.
\<close>

definition completes :: "board \<Rightarrow> board \<Rightarrow> bool" where
  "completes s board =
     (is_board s \<and> filled s \<and> digits s \<and> conflict_free s \<and> extends board s)"

text \<open>
  A weaker notion asks nothing of the cells that the board has filled. A cell of a grid
  is a legal placement when it holds a value 1..9 that no other cell of its row, column
  or box holds. A grid fills a board when it is a 9x9 grid that keeps the filled cells of
  the board, whatever they hold, and every cell that the board leaves empty is a legal
  placement in it.
\<close>

definition placed_ok :: "board \<Rightarrow> nat \<Rightarrow> nat \<Rightarrow> bool" where
  "placed_ok s y x =
     (1 \<le> s ! y ! x \<and> s ! y ! x \<le> 9 \<and>
      (\<forall>y'<9. \<forall>x'<9. (y' \<noteq> y \<or> x' \<noteq> x) \<and> same_unit y x y' x' \<longrightarrow> s ! y' ! x' \<noteq> s ! y ! x))"

definition fills :: "board \<Rightarrow> board \<Rightarrow> bool" where
  "fills s board =
     (is_board s \<and> extends board s \<and> (\<forall>y<9. \<forall>x<9. board ! y ! x = 0 \<longrightarrow> placed_ok s y x))"

text \<open>The state after \<open>n\<close> successive calls of \<open>init_solve\<close> on one board.\<close>

fun solve_n :: "board \<Rightarrow> nat \<Rightarrow> app \<Rightarrow> error + app" where
  "solve_n board 0 w = Inr w"
| "solve_n board (Suc n) w =
     (case init_solve board False w of
        Inl e \<Rightarrow> Inl e
      | Inr w1 \<Rightarrow> solve_n board n w1)"

text \<open>The three tests of the difficulty at the head of \<open>generate\<close>.\<close>

definition pick_clues :: "string \<Rightarrow> app \<Rightarrow> app" where
  "pick_clues difficulty w0 =
     (let w1 = (if difficulty = ''easy''
                then (let (c, w) = randint 40 50 w0 in w\<lparr>clues := c\<rparr>) else w0);
          w2 = (if difficulty = ''medium''
                then (let (c, w) = randint 32 40 w1 in w\<lparr>clues := c\<rparr>) else w1)
      in (if difficulty = ''hard''
          then (let (c, w) = randint 25 32 w2 in w\<lparr>clues := c\<rparr>) else w2))"

text \<open>
  Two states give the search the same draws when they agree on the random source and
  on the solution slot; two results agree when they are the same error or states that
  give the same draws.
\<close>

definition same_draws :: "app \<Rightarrow> app \<Rightarrow> bool" where
  "same_draws w v = (rng w = rng v \<and> solution w = solution v)"

definition same_result :: "error + app \<Rightarrow> error + app \<Rightarrow> bool" where
  "same_result r1 r2 =
     (case r1 of
        Inl e \<Rightarrow> r2 = Inl e
      | Inr w \<Rightarrow> (case r2 of Inl e \<Rightarrow> False | Inr v \<Rightarrow> same_draws w v))"

text \<open>
  Measures for the termination proofs: the number of cells that hold a value, a board
  with one cell overwritten (nothing happens outside the board), and the pairs that
  decrease along the calls of the solver and of the removal.
\<close>

definition count_value :: "int \<Rightarrow> board \<Rightarrow> nat" where
  "count_value a board = sum_list (map (\<lambda>r. count_list r a) board)"

definition put :: "board \<Rightarrow> nat \<Rightarrow> nat \<Rightarrow> int \<Rightarrow> board" where
  "put board y x v = board[y := (board ! y)[x := v]]"

definition solve_measure :: "(nat \<times> board \<times> app) + (nat \<times> nat \<times> nat \<times> int list \<times> board \<times> app) \<Rightarrow> nat \<times> nat" where
  "solve_measure a =
     (case a of
        Inl (level, board, w) \<Rightarrow> (count_value 0 board, 0)
      | Inr (level, y, x, numbers, sudoku, w) \<Rightarrow>
          (count_value 0 (put sudoku y x 1) + (if 0 \<in> set numbers then 1 else 0),
           Suc (length numbers)))"

definition all_filled :: "(nat \<times> nat) list \<Rightarrow> board \<Rightarrow> bool" where
  "all_filled indices board =
     (\<forall>(y, x) \<in> set indices. y < length board \<and> x < length (board ! y) \<and> board ! y ! x \<noteq> 0)"

definition remove_measure ::
  "(board \<times> (nat \<times> nat) list \<times> app) + (nat \<times> (nat \<times> nat) list \<times> board \<times> (nat \<times> nat) list \<times> app)
     \<Rightarrow> nat \<times> nat" where
  "remove_measure a =
     (case a of
        Inl (board, excluded, w) \<Rightarrow> (count_nonzero board, 0)
      | Inr (depth, indices, sudoku, excluded_nums, w) \<Rightarrow>
          (if all_filled indices sudoku then count_nonzero sudoku - 1 else count_nonzero sudoku,
           Suc (length indices)))"

subsection \<open>Example data\<close>

text \<open>A well-known puzzle with 30 clues, and its solution.\<close>

definition example_puzzle :: board where
  "example_puzzle =
     [[5, 3, 0, 0, 7, 0, 0, 0, 0],
      [6, 0, 0, 1, 9, 5, 0, 0, 0],
      [0, 9, 8, 0, 0, 0, 0, 6, 0],
      [8, 0, 0, 0, 6, 0, 0, 0, 3],
      [4, 0, 0, 8, 0, 3, 0, 0, 1],
      [7, 0, 0, 0, 2, 0, 0, 0, 6],
      [0, 6, 0, 0, 0, 0, 2, 8, 0],
      [0, 0, 0, 4, 1, 9, 0, 0, 5],
      [0, 0, 0, 0, 8, 0, 0, 7, 9]]"

definition example_solution :: board where
  "example_solution =
     [[5, 3, 4, 6, 7, 8, 9, 1, 2],
      [6, 7, 2, 1, 9, 5, 3, 4, 8],
      [1, 9, 8, 3, 4, 2, 5, 6, 7],
      [8, 5, 9, 7, 6, 1, 4, 2, 3],
      [4, 2, 6, 8, 5, 3, 7, 9, 1],
      [7, 1, 3, 9, 2, 4, 8, 5, 6],
      [9, 6, 1, 5, 3, 7, 2, 8, 4],
      [2, 8, 7, 4, 1, 9, 6, 3, 5],
      [3, 4, 5, 2, 8, 6, 1, 7, 9]]"

text \<open>The solution with the cells (4,4) and (8,8) emptied.\<close>

definition two_missing :: board where
  "two_missing =
     [[5, 3, 4, 6, 7, 8, 9, 1, 2],
      [6, 7, 2, 1, 9, 5, 3, 4, 8],
      [1, 9, 8, 3, 4, 2, 5, 6, 7],
      [8, 5, 9, 7, 6, 1, 4, 2, 3],
      [4, 2, 6, 8, 0, 3, 7, 9, 1],
      [7, 1, 3, 9, 2, 4, 8, 5, 6],
      [9, 6, 1, 5, 3, 7, 2, 8, 4],
      [2, 8, 7, 4, 1, 9, 6, 3, 5],
      [3, 4, 5, 2, 8, 6, 1, 7, 0]]"

text \<open>A grid with the value 10 in its first cell and its last cell empty.\<close>

definition ten_grid :: board where
  "ten_grid =
     [[10, 3, 4, 6, 7, 8, 9, 1, 2],
      [6, 7, 2, 1, 9, 5, 3, 4, 8],
      [1, 9, 8, 3, 4, 2, 5, 6, 7],
      [8, 5, 9, 7, 6, 1, 4, 2, 3],
      [4, 2, 6, 8, 5, 3, 7, 9, 1],
      [7, 1, 3, 9, 2, 4, 8, 5, 6],
      [9, 6, 1, 5, 3, 7, 2, 8, 4],
      [2, 8, 7, 4, 1, 9, 6, 3, 5],
      [3, 4, 5, 2, 8, 6, 1, 7, 0]]"

section \<open>Termination\<close>

text \<open>
  A recursive call of \<open>solve\<close> receives a board with one empty cell fewer, and every
  round of the loop shortens \<open>numbers\<close>.
\<close>

lemma count_list_update:
  "x < length r \<Longrightarrow>
     count_list (r[x := v]) a + (if r ! x = a then 1 else 0) =
     count_list r a + (if v = a then 1 else 0)"
proof (induction r arbitrary: x)
  case Nil
  then show ?case by simp
next
  case (Cons c r)
  show ?case
  proof (cases x)
    case 0
    then show ?thesis by simp
  next
    case (Suc k)
    with Cons.prems have "k < length r" by simp
    from Cons.IH [OF this] Suc show ?thesis by (auto split: if_splits)
  qed
qed

lemma sum_list_map_update:
  fixes f :: "'a \<Rightarrow> nat"
  shows "y < length xs \<Longrightarrow>
     sum_list (map f (xs[y := r])) + f (xs ! y) = sum_list (map f xs) + f r"
proof (induction xs arbitrary: y)
  case Nil
  then show ?case by simp
next
  case (Cons c xs)
  show ?case
  proof (cases y)
    case 0
    then show ?thesis by simp
  next
    case (Suc k)
    with Cons.prems have "k < length xs" by simp
    from Cons.IH [OF this] Suc show ?thesis by simp
  qed
qed

lemma count_value_put:
  assumes "y < length board" "x < length (board ! y)"
  shows "count_value a (put board y x v) + (if board ! y ! x = a then 1 else 0) =
         count_value a board + (if v = a then 1 else 0)"
proof -
  let ?r = "board ! y"
  have "sum_list (map (\<lambda>r. count_list r a) (board[y := ?r[x := v]])) + count_list ?r a =
        sum_list (map (\<lambda>r. count_list r a) board) + count_list (?r[x := v]) a"
    using assms(1) by (rule sum_list_map_update)
  moreover note count_list_update [OF assms(2), of v a]
  ultimately show ?thesis
    unfolding count_value_def put_def by (simp split: if_splits)
qed

lemma put_put: "put (put board y x a) y x c = put board y x c"
  by (cases "y < length board") (simp_all add: put_def not_less list_update_beyond)

lemma put_out_of_range:
  "\<not> (y < length board \<and> x < length (board ! y)) \<Longrightarrow> put board y x v = board"
  by (auto simp: put_def not_less list_update_beyond)

lemma set_cell_put: "set_cell board y x v = Inr b' \<Longrightarrow> b' = put board y x v"
  by (auto simp: set_cell_def put_def split: if_splits)

lemma count_value_put_le:
  "count_value 0 (put board y x v) \<le> count_value 0 (put board y x 1) + (if v = 0 then 1 else 0)"
proof (cases "y < length board \<and> x < length (board ! y)")
  case True
  then show ?thesis
    using count_value_put [of y board x 0 v] count_value_put [of y board x 0 1]
    by (simp split: if_splits)
next
  case False
  then show ?thesis by (simp add: put_out_of_range)
qed

lemma ndenumerate_set:
  "set (ndenumerate board) =
     {((y, x), board ! y ! x) | y x. y < length board \<and> x < length (board ! y)}"
  by (auto simp: ndenumerate_def)

lemma first_zero_Some:
  assumes "first_zero board = Some (y, x)"
  shows "y < length board \<and> x < length (board ! y) \<and> board ! y ! x = 0"
proof -
  from assms obtain n where "find (\<lambda>(c, n). n = 0) (ndenumerate board) = Some ((y, x), n)"
    by (auto simp: first_zero_def)
  then have "((y, x), n) \<in> set (ndenumerate board)" "n = 0"
    by (auto simp: find_Some_iff in_set_conv_nth)
  then show ?thesis by (auto simp: ndenumerate_set)
qed

lemma first_zero_None:
  "first_zero board = None \<longleftrightarrow> (\<forall>y < length board. \<forall>x < length (board ! y). board ! y ! x \<noteq> 0)"
  by (auto simp: first_zero_def find_None_iff ndenumerate_set)

lemma randrange_less: "0 < n \<Longrightarrow> fst (randrange n w) < n"
  by (simp add: randrange_def split: list.splits)

lemma pop_random_facts:
  assumes "xs \<noteq> []" "pop_random xs w = (a, rest, w')"
  shows "a \<in> set xs" "set rest \<subseteq> set xs" "Suc (length rest) = length xs"
proof -
  obtain k w1 where k: "randrange (length xs) w = (k, w1)" by (cases "randrange (length xs) w")
  with randrange_less [of "length xs" w] assms(1) have lt: "k < length xs" by simp
  from assms(2) k have a: "a = xs ! k" and rest: "rest = take k xs @ drop (Suc k) xs"
    by (simp_all add: pop_random_def)
  show "a \<in> set xs" using a lt by simp
  show "set rest \<subseteq> set xs" unfolding rest
    using set_take_subset [of k xs] set_drop_subset [of "Suc k" xs] by auto
  show "Suc (length rest) = length xs" unfolding rest using lt by simp
qed

termination solve
proof (relation "inv_image (less_than <*lex*> less_than) solve_measure", goal_cases)
  case 1
  then show ?case by auto
next
  case (2 level board w0 w sudoku c y x)
  then have "first_zero board = Some (y, x)" by simp
  from first_zero_Some [OF this] count_value_put [of y board x 0 1] 2(2)
  show ?case by (simp add: solve_measure_def)
next
  case (3 level y x numbers sudoku w p num r numbers' w1 b sudoku')
  then have pop: "pop_random numbers w = (num, numbers', w1)" by simp
  from 3 have s: "sudoku' = put sudoku y x num" by (simp add: set_cell_put)
  have "num \<in> set numbers" using pop_random_facts(1) [OF 3(1) pop] .
  with count_value_put_le [of sudoku y x num]
  show ?case by (auto simp: solve_measure_def s split: if_splits)
next
  case (4 level y x numbers sudoku w p num r numbers' w1 b sudoku' w2)
  then have pop: "pop_random numbers w = (num, numbers', w1)" by simp
  from 4 have s: "sudoku' = put sudoku y x num" by (simp add: set_cell_put)
  from pop_random_facts(2,3) [OF 4(1) pop]
  show ?case by (auto simp: solve_measure_def s put_put)
next
  case (5 level y x numbers sudoku w p num r numbers' w1 b)
  then have pop: "pop_random numbers w = (num, numbers', w1)" by simp
  from pop_random_facts(2,3) [OF 5(1) pop]
  show ?case by (auto simp: solve_measure_def)
qed

declare solve.simps [simp del] try_numbers.simps [simp del]

termination skip_excluded
proof (relation "measure (\<lambda>(c, indices, excluded_nums, w). length indices)", goal_cases)
  case 1
  then show ?case by simp
next
  case (2 c indices excluded_nums w p c' r indices' w')
  then have "pop_random indices w = (c', indices', w')" "indices \<noteq> []" by simp_all
  from pop_random_facts(3) [OF this(2) this(1)] show ?case by simp
qed

declare skip_excluded.simps [simp del]

lemma skip_excluded_facts:
  "skip_excluded c indices excluded_nums w = (c', indices', w') \<Longrightarrow>
     set indices' \<subseteq> set indices \<and> length indices' \<le> length indices \<and> c' \<in> insert c (set indices)"
proof (induction c indices excluded_nums w rule: skip_excluded.induct)
  case (1 c indices excluded_nums w)
  show ?case
  proof (cases "c \<in> set excluded_nums \<and> indices \<noteq> []")
    case True
    obtain c1 indices1 w1 where pop: "pop_random indices w = (c1, indices1, w1)"
      by (cases "pop_random indices w")
    from True have ne: "indices \<noteq> []" by simp
    from "1.prems" True pop have "skip_excluded c1 indices1 excluded_nums w1 = (c', indices', w')"
      by (simp add: skip_excluded.simps [of c])
    from "1.IH" [OF True pop [symmetric] refl refl this] pop_random_facts [OF ne pop]
    show ?thesis by auto
  next
    case False
    with "1.prems" show ?thesis by (auto simp: skip_excluded.simps [of c])
  qed
qed

text \<open>
  Termination of the removal: the recursive call receives a board with one filled cell
  fewer, and every round of the loop shortens \<open>indices\<close>.
\<close>

lemma count_nonzero_sum:
  "count_nonzero board = sum_list (map (\<lambda>r. length (filter (\<lambda>n. n \<noteq> 0) r)) board)"
  by (simp add: count_nonzero_def filter_concat length_concat comp_def)

lemma length_filter_update:
  "x < length r \<Longrightarrow>
     length (filter P (r[x := v])) + (if P (r ! x) then 1 else 0) =
     length (filter P r) + (if P v then 1 else 0)"
proof (induction r arbitrary: x)
  case Nil
  then show ?case by simp
next
  case (Cons c r)
  show ?case
  proof (cases x)
    case 0
    then show ?thesis by simp
  next
    case (Suc k)
    with Cons.prems have "k < length r" by simp
    from Cons.IH [OF this] Suc show ?thesis by (auto split: if_splits)
  qed
qed

lemma count_nonzero_put:
  assumes "y < length board" "x < length (board ! y)"
  shows "count_nonzero (put board y x v) + (if board ! y ! x \<noteq> 0 then 1 else 0) =
         count_nonzero board + (if v \<noteq> 0 then 1 else 0)"
proof -
  let ?r = "board ! y"
  let ?f = "\<lambda>r. length (filter (\<lambda>n. n \<noteq> (0::int)) r)"
  have "sum_list (map ?f (board[y := ?r[x := v]])) + ?f ?r = sum_list (map ?f board) + ?f (?r[x := v])"
    using assms(1) by (rule sum_list_map_update)
  moreover note length_filter_update [OF assms(2), of "\<lambda>n. n \<noteq> 0" v]
  ultimately show ?thesis
    unfolding count_nonzero_sum put_def by (simp split: if_splits)
qed

lemma nonzero_indices_set:
  "set (nonzero_indices board) =
     {(y, x). y < length board \<and> x < length (board ! y) \<and> board ! y ! x \<noteq> 0}"
  by (auto simp: nonzero_indices_def ndenumerate_set image_iff)

lemma cell_set_cell_restore:
  assumes "cell sudoku y x = Inr n" "set_cell sudoku y x 0 = Inr sudoku0"
    "set_cell sudoku0 y x n = Inr sudoku_n"
  shows "sudoku_n = sudoku"
proof -
  from assms(1) have n: "n = sudoku ! y ! x" by (auto simp: cell_def split: if_splits)
  from set_cell_put [OF assms(2)] set_cell_put [OF assms(3)]
  have "sudoku_n = put (put sudoku y x 0) y x n" by simp
  then have "sudoku_n = put sudoku y x n" by (simp add: put_put)
  then show ?thesis by (simp add: n put_def)
qed

lemma popped_candidate:
  assumes "indices \<noteq> []" "pop_random indices w = (c0, indices1, w1)"
    "skip_excluded c0 indices1 excluded_nums w1 = (c, indices2, w2)"
  shows "c \<in> set indices" "set indices2 \<subseteq> set indices" "length indices2 < length indices"
  using pop_random_facts [OF assms(1,2)] skip_excluded_facts [OF assms(3)] by auto

lemma all_filled_subset: "all_filled indices board \<Longrightarrow> set indices2 \<subseteq> set indices \<Longrightarrow> all_filled indices2 board"
  by (auto simp: all_filled_def)

lemma remove_measure_recurse:
  assumes "(y, x) \<in> set indices" "set_cell sudoku y x 0 = Inr sudoku0"
  shows "(remove_measure (Inl (sudoku0, ex, w')), remove_measure (Inr (depth, indices, sudoku, ex', w)))
           \<in> less_than <*lex*> less_than"
proof -
  from assms(2) have s0: "sudoku0 = put sudoku y x 0" and r: "y < length sudoku" "x < length (sudoku ! y)"
    by (auto simp: set_cell_def put_def split: if_splits)
  from count_nonzero_put [OF r, of 0] assms(1) show ?thesis
    by (auto simp: remove_measure_def s0 all_filled_def split: if_splits)
qed

lemma remove_measure_loop:
  assumes "set indices2 \<subseteq> set indices" "length indices2 < length indices"
  shows "(remove_measure (Inr (depth, indices2, sudoku, ex, w')), remove_measure (Inr (depth', indices, sudoku, ex', w)))
           \<in> less_than <*lex*> less_than"
  using assms all_filled_subset [of indices sudoku indices2]
  by (auto simp: remove_measure_def)

termination remove_numbers
proof (relation "inv_image (less_than <*lex*> less_than) remove_measure", goal_cases)
  case 1
  then show ?case by auto
next
  case (2 board excluded w sudoku excluded_nums depth indices)
  then have "all_filled (nonzero_indices board) board"
    by (simp add: all_filled_def nonzero_indices_set)
  with 2 show ?case by (simp add: remove_measure_def)
next
  case 3
  then show ?case
    by (simp del: insert_iff) (metis popped_candidate(1) remove_measure_recurse)
next
  case 4
  then show ?case
    by (simp del: insert_iff) (metis popped_candidate(2,3) remove_measure_loop cell_set_cell_restore)
next
  case 5
  then show ?case
    by (simp del: insert_iff) (metis popped_candidate(2,3) remove_measure_loop)
qed

declare remove_numbers.simps [simp del] remove_loop.simps [simp del]

section \<open>Facts about the validator\<close>

lemma is_board_cell:
  "is_board board \<Longrightarrow> y < 9 \<Longrightarrow> x < 9 \<Longrightarrow> cell board y x = Inr (board ! y ! x)"
  by (simp add: is_board_def cell_def list_all_length)

lemma scan_lines_board:
  assumes "is_board board" "y < 9" "x < 9" "\<forall>i \<in> set ixs. i < 9"
  shows "scan_lines y x v board ixs =
           Inr (v \<notin> set (map (\<lambda>i. board ! y ! i) ixs) \<and> v \<notin> set (map (\<lambda>i. board ! i ! x) ixs))"
  using assms(4)
proof (induction ixs)
  case Nil
  then show ?case by simp
next
  case (Cons i ixs)
  then have "i < 9" by simp
  with assms Cons show ?case
    by (auto simp: is_board_cell)
qed

lemma scan_square_board:
  assumes "is_board board" "\<forall>(i, j) \<in> set ps. sy + j < 9 \<and> sx + i < 9"
  shows "scan_square sy sx v board ps =
           Inr (v \<notin> set (map (\<lambda>(i, j). board ! (sy + j) ! (sx + i)) ps))"
  using assms(2)
proof (induction ps)
  case Nil
  then show ?case by simp
next
  case (Cons p ps)
  obtain i j where p: "p = (i, j)" by (cases p)
  with Cons have "sy + j < 9" "sx + i < 9" by auto
  with assms(1) Cons p show ?case
    by (auto simp: is_board_cell)
qed

lemma square_in_range: "y < 9 \<Longrightarrow> j < 3 \<Longrightarrow> y div 3 * 3 + j < (9::nat)"
  by arith

lemma can_place_board:
  assumes "is_board board" "y < 9" "x < 9"
  shows "can_place y x v board =
           Inr (v \<notin> set (row_cells board y) \<and> v \<notin> set (col_cells board x)
                \<and> v \<notin> set (box_cells board y x))"
proof -
  have lines: "scan_lines y x v board [0..<9] =
      Inr (v \<notin> set (row_cells board y) \<and> v \<notin> set (col_cells board x))"
    using scan_lines_board [OF assms, of "[0..<9]" v]
    by (simp add: row_cells_def col_cells_def)
  have "\<forall>(i, j) \<in> set (List.product [0..<3] [0..<3]). y div 3 * 3 + j < 9 \<and> x div 3 * 3 + i < 9"
    using assms(2,3) by (auto intro: square_in_range)
  then have square: "scan_square (y div 3 * 3) (x div 3 * 3) v board (List.product [0..<3] [0..<3]) =
      Inr (v \<notin> set (box_cells board y x))"
    using scan_square_board [OF assms(1)] by (simp add: box_cells_def)
  show ?thesis
    unfolding can_place_def lines Let_def square
    by (simp split: bool.splits)
qed

lemma in_row_cells: "v \<in> set (row_cells board y) \<longleftrightarrow> (\<exists>x'<9. board ! y ! x' = v)"
  by (auto simp: row_cells_def)

lemma in_col_cells: "v \<in> set (col_cells board x) \<longleftrightarrow> (\<exists>y'<9. board ! y' ! x = v)"
  by (auto simp: col_cells_def)

lemma box_coordinate:
  "y' < 9 \<Longrightarrow> y' div 3 = y div 3 \<Longrightarrow> y div 3 * 3 + y' mod 3 = (y'::nat)"
  by arith

lemma box_coordinate_div:
  "j < 3 \<Longrightarrow> (y div 3 * 3 + j) div 3 = (y::nat) div 3"
  by arith

lemma in_box_cells:
  assumes "y < 9" "x < 9"
  shows "v \<in> set (box_cells board y x) \<longleftrightarrow>
     (\<exists>y'<9. \<exists>x'<9. y' div 3 = y div 3 \<and> x' div 3 = x div 3 \<and> board ! y' ! x' = v)"
proof
  assume "v \<in> set (box_cells board y x)"
  then obtain i j where ij: "i < 3" "j < 3" "board ! (y div 3 * 3 + j) ! (x div 3 * 3 + i) = v"
    by (auto simp: box_cells_def)
  let ?y = "y div 3 * 3 + j" and ?x = "x div 3 * 3 + i"
  have "?y < 9" "?x < 9" using assms ij by (auto intro: square_in_range)
  moreover have "?y div 3 = y div 3" "?x div 3 = x div 3"
    using ij by (simp_all add: box_coordinate_div)
  ultimately show "\<exists>y'<9. \<exists>x'<9. y' div 3 = y div 3 \<and> x' div 3 = x div 3 \<and> board ! y' ! x' = v"
    using ij(3) by blast
next
  assume "\<exists>y'<9. \<exists>x'<9. y' div 3 = y div 3 \<and> x' div 3 = x div 3 \<and> board ! y' ! x' = v"
  then obtain y' x' where c: "y' < 9" "x' < 9" "y' div 3 = y div 3" "x' div 3 = x div 3"
    "board ! y' ! x' = v" by blast
  have "y' mod 3 < 3" "x' mod 3 < 3" by simp_all
  moreover have "board ! (y div 3 * 3 + y' mod 3) ! (x div 3 * 3 + x' mod 3) = v"
    using c by (simp add: box_coordinate)
  ultimately show "v \<in> set (box_cells board y x)"
    unfolding box_cells_def by (force simp: image_iff)
qed

lemma can_place_free:
  assumes "is_board board" "y < 9" "x < 9"
  shows "can_place y x v board = Inr (free_for board y x v)"
proof -
  have "(v \<notin> set (row_cells board y) \<and> v \<notin> set (col_cells board x)
           \<and> v \<notin> set (box_cells board y x)) = free_for board y x v"
    unfolding in_row_cells in_col_cells in_box_cells [OF assms(2,3)] free_for_def same_unit_def
    using assms(2,3) by (intro iffI; safe) metis+
  with can_place_board [OF assms] show ?thesis by simp
qed

lemma nth_put:
  assumes "is_board board" "y < 9" "x < 9" "y' < 9" "x' < 9"
  shows "put board y x v ! y' ! x' = (if y' = y \<and> x' = x then v else board ! y' ! x')"
  using assms by (auto simp: put_def is_board_def list_all_length nth_list_update)

section \<open>Facts about the solver\<close>

lemma try_numbers_Nil: "try_numbers level y x [] sudoku w = Inr w"
  by (simp add: try_numbers.simps)

lemma try_numbers_step:
  assumes "numbers \<noteq> []" "pop_random numbers w = (num, numbers', w1)"
  shows "try_numbers level y x numbers sudoku w =
     (if solution w1 = None then
        (case can_place y x num sudoku of
           Inl e \<Rightarrow> Inl e
         | Inr False \<Rightarrow> try_numbers level y x numbers' sudoku w1
         | Inr True \<Rightarrow>
             (case set_cell sudoku y x num of
                Inl e \<Rightarrow> Inl e
              | Inr sudoku' \<Rightarrow>
                  (case solve (Suc level) sudoku' w1 of
                     Inl e \<Rightarrow> Inl e
                   | Inr w2 \<Rightarrow> try_numbers level y x numbers' sudoku' w2)))
      else Inr w1)"
  using assms by (simp add: try_numbers.simps [of level y x numbers])

lemma solve_unfold:
  "solve level board w =
     (case first_zero board of
        Some (y, x) \<Rightarrow> try_numbers level y x [1..9] board (w\<lparr>deepest := max (deepest w) level\<rparr>)
      | None \<Rightarrow> Inr (w\<lparr>deepest := max (deepest w) level, solution := Some board\<rparr>))"
  by (simp add: solve.simps [of level board w] Let_def)

lemma solve_induct [case_names solve loop]:
  assumes "\<And>level board w.
      (\<And>y x. first_zero board = Some (y, x) \<Longrightarrow>
         Q level y x [1..9] board (w\<lparr>deepest := max (deepest w) level\<rparr>)) \<Longrightarrow>
      P level board w"
    and "\<And>level y x numbers sudoku w.
      (\<And>num numbers' w1 sudoku'.
          numbers \<noteq> [] \<Longrightarrow> pop_random numbers w = (num, numbers', w1) \<Longrightarrow>
          solution w1 = None \<Longrightarrow> can_place y x num sudoku = Inr True \<Longrightarrow>
          set_cell sudoku y x num = Inr sudoku' \<Longrightarrow> P (Suc level) sudoku' w1) \<Longrightarrow>
      (\<And>num numbers' w1 sudoku' w2.
          numbers \<noteq> [] \<Longrightarrow> pop_random numbers w = (num, numbers', w1) \<Longrightarrow>
          solution w1 = None \<Longrightarrow> can_place y x num sudoku = Inr True \<Longrightarrow>
          set_cell sudoku y x num = Inr sudoku' \<Longrightarrow>
          solve (Suc level) sudoku' w1 = Inr w2 \<Longrightarrow> Q level y x numbers' sudoku' w2) \<Longrightarrow>
      (\<And>num numbers' w1.
          numbers \<noteq> [] \<Longrightarrow> pop_random numbers w = (num, numbers', w1) \<Longrightarrow>
          solution w1 = None \<Longrightarrow> can_place y x num sudoku = Inr False \<Longrightarrow>
          Q level y x numbers' sudoku w1) \<Longrightarrow>
      Q level y x numbers sudoku w"
  shows "P level board w" and "Q level y x numbers sudoku w"
proof (induction level board w and level y x numbers sudoku w rule: solve_try_numbers.induct)
  case (1 level board w0)
  show ?case
    by (rule assms(1)) (rule 1, simp_all)
next
  case (2 level y x numbers sudoku w)
  show ?case
  proof (rule assms(2), goal_cases)
    case (1 num numbers' w1 sudoku')
    then show ?case by (intro "2.IH"(1)) simp_all
  next
    case (2 num numbers' w1 sudoku' w2)
    then show ?case by (intro "2.IH"(2)) simp_all
  next
    case (3 num numbers' w1)
    then show ?case by (intro "2.IH"(3)) simp_all
  qed
qed

lemma try_numbers_cases [case_names empty found place_error skip set_error solve_error recurse]:
  obtains
    "numbers = []" "try_numbers level y x numbers sudoku w = Inr w"
  | num numbers' w1 where
      "numbers \<noteq> []" "pop_random numbers w = (num, numbers', w1)" "solution w1 \<noteq> None"
      "try_numbers level y x numbers sudoku w = Inr w1"
  | num numbers' w1 e where
      "numbers \<noteq> []" "pop_random numbers w = (num, numbers', w1)" "solution w1 = None"
      "can_place y x num sudoku = Inl e"
      "try_numbers level y x numbers sudoku w = Inl e"
  | num numbers' w1 where
      "numbers \<noteq> []" "pop_random numbers w = (num, numbers', w1)" "solution w1 = None"
      "can_place y x num sudoku = Inr False"
      "try_numbers level y x numbers sudoku w = try_numbers level y x numbers' sudoku w1"
  | num numbers' w1 e where
      "numbers \<noteq> []" "pop_random numbers w = (num, numbers', w1)" "solution w1 = None"
      "can_place y x num sudoku = Inr True" "set_cell sudoku y x num = Inl e"
      "try_numbers level y x numbers sudoku w = Inl e"
  | num numbers' w1 sudoku' e where
      "numbers \<noteq> []" "pop_random numbers w = (num, numbers', w1)" "solution w1 = None"
      "can_place y x num sudoku = Inr True" "set_cell sudoku y x num = Inr sudoku'"
      "solve (Suc level) sudoku' w1 = Inl e"
      "try_numbers level y x numbers sudoku w = Inl e"
  | num numbers' w1 sudoku' w2 where
      "numbers \<noteq> []" "pop_random numbers w = (num, numbers', w1)" "solution w1 = None"
      "can_place y x num sudoku = Inr True" "set_cell sudoku y x num = Inr sudoku'"
      "solve (Suc level) sudoku' w1 = Inr w2"
      "try_numbers level y x numbers sudoku w = try_numbers level y x numbers' sudoku' w2"
proof (cases "numbers = []")
  case True
  then show ?thesis using that(1) by (simp add: try_numbers_Nil)
next
  case ne: False
  obtain num numbers' w1 where pop: "pop_random numbers w = (num, numbers', w1)"
    by (cases "pop_random numbers w")
  note step = try_numbers_step [OF ne pop, of level y x sudoku]
  show ?thesis
  proof (cases "solution w1 = None")
    case False
    with step that(2) [OF ne pop] show ?thesis by simp
  next
    case none: True
    show ?thesis
    proof (cases "can_place y x num sudoku")
      case (Inl e)
      with step none that(3) [OF ne pop none] show ?thesis by simp
    next
      case (Inr ok)
      show ?thesis
      proof (cases ok)
        case False
        with Inr step none that(4) [OF ne pop none] show ?thesis by simp
      next
        case True
        with Inr have ok: "can_place y x num sudoku = Inr True" by simp
        show ?thesis
        proof (cases "set_cell sudoku y x num")
          case (Inl e)
          with step none ok that(5) [OF ne pop none ok] show ?thesis by simp
        next
          case set: (Inr sudoku')
          show ?thesis
          proof (cases "solve (Suc level) sudoku' w1")
            case (Inl e)
            with step none ok set that(6) [OF ne pop none ok set] show ?thesis by simp
          next
            case (Inr w2)
            with step none ok set that(7) [OF ne pop none ok set] show ?thesis by simp
          qed
        qed
      qed
    qed
  qed
qed

lemma is_board_set_cell:
  assumes "is_board board" "y < 9" "x < 9"
  shows "set_cell board y x v = Inr (put board y x v)" "is_board (put board y x v)"
proof -
  from assms have r: "y < length board" "x < length (board ! y)"
    by (simp_all add: is_board_def list_all_length)
  then show "set_cell board y x v = Inr (put board y x v)"
    by (simp add: set_cell_def put_def)
  show "is_board (put board y x v)"
    using assms r by (auto simp: is_board_def put_def list_all_length nth_list_update)
qed

lemma first_zero_board:
  "is_board board \<Longrightarrow> first_zero board = Some (y, x) \<Longrightarrow> y < 9 \<and> x < 9 \<and> board ! y ! x = 0"
  using first_zero_Some [of board y x] by (auto simp: is_board_def list_all_length)

lemma solve_no_error:
  shows "is_board board \<Longrightarrow> \<exists>w'. solve level board w = Inr w'"
    and "is_board sudoku \<Longrightarrow> y < 9 \<Longrightarrow> x < 9 \<Longrightarrow> \<exists>w'. try_numbers level y x numbers sudoku w = Inr w'"
proof (induction level board w and level y x numbers sudoku w rule: solve_induct)
  case (solve level board w)
  show ?case
  proof (cases "first_zero board")
    case None
    then show ?thesis by (simp add: solve_unfold)
  next
    case (Some c)
    obtain y x where c: "c = (y, x)" by (cases c)
    with Some solve.prems first_zero_board have "y < 9" "x < 9" by blast+
    from solve.IH [OF Some [unfolded c] solve.prems this] Some c
    show ?thesis by (simp add: solve_unfold)
  qed
next
  case (loop level y x numbers sudoku w)
  note board = loop.prems
  show ?case
  proof (cases rule: try_numbers_cases [of numbers level y x sudoku w])
    case empty
    then show ?thesis by simp
  next
    case (found num numbers' w1)
    then show ?thesis by simp
  next
    case (place_error num numbers' w1 e)
    with can_place_board [OF board] show ?thesis by simp
  next
    case (skip num numbers' w1)
    with loop.IH(3) [OF skip(1-4) board] show ?thesis by simp
  next
    case (set_error num numbers' w1 e)
    with is_board_set_cell(1) [OF board] show ?thesis by simp
  next
    case (solve_error num numbers' w1 sudoku' e)
    from solve_error(5) is_board_set_cell [OF board, of num] have "is_board sudoku'" by simp
    from loop.IH(1) [OF solve_error(1-5) this] solve_error(6) show ?thesis by simp
  next
    case (recurse num numbers' w1 sudoku' w2)
    from recurse(5) is_board_set_cell [OF board, of num] have "is_board sudoku'" by simp
    from loop.IH(2) [OF recurse(1-6) this board(2,3)] recurse(7) show ?thesis by simp
  qed
qed

lemma same_unit_sym: "same_unit y x y' x' \<Longrightarrow> same_unit y' x' y x"
  by (auto simp: same_unit_def)

lemma pop_random_frame:
  assumes "pop_random xs w = (a, rest, w')"
  shows "solution w' = solution w" "clues w' = clues w" "puzzle w' = puzzle w"
    "deepest w' = deepest w" "solve_calls w' = solve_calls w"
  using assms by (auto simp: pop_random_def randrange_def split: list.splits)

lemma put_same: "is_board board \<Longrightarrow> y < 9 \<Longrightarrow> x < 9 \<Longrightarrow> board ! y ! x = v \<Longrightarrow> put board y x v = board"
  by (auto simp: put_def)

lemma try_numbers_keeps:
  assumes "solution w \<noteq> None" "try_numbers level y x numbers sudoku w = Inr w'"
  shows "solution w' = solution w"
proof (cases rule: try_numbers_cases [of numbers level y x sudoku w])
  case empty
  with assms show ?thesis by simp
next
  case (found num numbers' w1)
  with assms pop_random_frame(1) [OF found(2)] show ?thesis by simp
next
  case (place_error num numbers' w1 e)
  with assms pop_random_frame(1) [OF place_error(2)] show ?thesis by simp
next
  case (skip num numbers' w1)
  with assms pop_random_frame(1) [OF skip(2)] show ?thesis by simp
next
  case (set_error num numbers' w1 e)
  with assms pop_random_frame(1) [OF set_error(2)] show ?thesis by simp
next
  case (solve_error num numbers' w1 sudoku' e)
  with assms pop_random_frame(1) [OF solve_error(2)] show ?thesis by simp
next
  case (recurse num numbers' w1 sudoku' w2)
  with assms pop_random_frame(1) [OF recurse(2)] show ?thesis by simp
qed

lemma extends_put:
  assumes "is_board sudoku" "y < 9" "x < 9" "extends (put sudoku y x v) s"
  shows "extends (put sudoku y x 0) s"
  using assms(4) unfolding extends_def
  by (auto simp: nth_put [OF assms(1-3)] split: if_splits)

lemma place_valid:
  assumes b: "is_board sudoku" "y < 9" "x < 9"
    and free: "free_for sudoku y x num" and num: "1 \<le> num" "num \<le> 9"
    and old: "digits (put sudoku y x 0)" "conflict_free (put sudoku y x 0)"
  shows "digits (put sudoku y x num)" "conflict_free (put sudoku y x num)"
proof -
  show "digits (put sudoku y x num)"
    using old(1) num unfolding digits_def
    by (auto simp: nth_put [OF b] split: if_splits)
  show "conflict_free (put sudoku y x num)"
    unfolding conflict_free_def
  proof (intro allI impI)
    fix a c a' c'
    assume r: "a < 9" "c < 9" "a' < 9" "c' < 9"
      and h: "put sudoku y x num ! a ! c \<noteq> 0 \<and> (a \<noteq> a' \<or> c \<noteq> c') \<and> same_unit a c a' c'"
    show "put sudoku y x num ! a ! c \<noteq> put sudoku y x num ! a' ! c'"
    proof (cases "a = y \<and> c = x")
      case True
      with h have "\<not> (a' = y \<and> c' = x)" "same_unit y x a' c'" by auto
      with free r True show ?thesis
        by (auto simp: nth_put [OF b] free_for_def)
    next
      case other: False
      show ?thesis
      proof (cases "a' = y \<and> c' = x")
        case True
        with h have "same_unit y x a c" by (auto intro: same_unit_sym)
        with free r have "sudoku ! a ! c \<noteq> num" by (auto simp: free_for_def)
        with other True r show ?thesis by (auto simp: nth_put [OF b])
      next
        case False
        from old(2) [unfolded conflict_free_def, rule_format, OF r(1,2,3,4)] h other False r
        show ?thesis by (auto simp: nth_put [OF b])
      qed
    qed
  qed
qed

lemma solve_sound:
  shows "is_board board \<Longrightarrow> solution w = None \<Longrightarrow> solve level board w = Inr w' \<Longrightarrow>
           solution w' = Some s \<Longrightarrow>
           is_board s \<and> filled s \<and> extends board s \<and>
           (digits board \<and> conflict_free board \<longrightarrow> digits s \<and> conflict_free s)"
    and "is_board sudoku \<Longrightarrow> y < 9 \<Longrightarrow> x < 9 \<Longrightarrow> set numbers \<subseteq> {1..9} \<Longrightarrow>
           solution w = None \<Longrightarrow> try_numbers level y x numbers sudoku w = Inr w' \<Longrightarrow>
           solution w' = Some s \<Longrightarrow>
           is_board s \<and> filled s \<and> extends (put sudoku y x 0) s \<and>
           (digits (put sudoku y x 0) \<and> conflict_free (put sudoku y x 0)
              \<longrightarrow> digits s \<and> conflict_free s)"
proof (induction level board w and level y x numbers sudoku w arbitrary: w' s and w' s
    rule: solve_induct)
  case (solve level board w)
  show ?case
  proof (cases "first_zero board")
    case None
    with solve.prems have s: "s = board" by (auto simp: solve_unfold)
    from None solve.prems(1) have "filled board"
      by (auto simp: first_zero_None filled_def is_board_def list_all_length)
    with solve.prems(1) show ?thesis by (simp add: s extends_def)
  next
    case (Some c)
    obtain y x where c: "c = (y, x)" by (cases c)
    from first_zero_board [OF solve.prems(1) Some [unfolded c]]
    have r: "y < 9" "x < 9" "board ! y ! x = 0" by simp_all
    let ?w = "w\<lparr>deepest := max (deepest w) level\<rparr>"
    have run: "try_numbers level y x [1..9] board ?w = Inr w'"
      using solve.prems(3) Some c by (simp add: solve_unfold)
    have "solution ?w = None" using solve.prems(2) by simp
    from solve.IH [OF Some [unfolded c] solve.prems(1) r(1,2) _ this run solve.prems(4)]
    show ?thesis by (simp add: put_same [OF solve.prems(1) r])
  qed
next
  case (loop level y x numbers sudoku w)
  note b = loop.prems(1-3)
  show ?case
  proof (cases rule: try_numbers_cases [of numbers level y x sudoku w])
    case empty
    with loop.prems show ?thesis by simp
  next
    case (found num numbers' w1)
    with loop.prems pop_random_frame(1) [OF found(2)] show ?thesis by simp
  next
    case (place_error num numbers' w1 e)
    with loop.prems show ?thesis by simp
  next
    case (skip num numbers' w1)
    from pop_random_facts(2) [OF skip(1,2)] loop.prems(4) have "set numbers' \<subseteq> {1..9}" by blast
    moreover from skip(5) loop.prems(6) have "try_numbers level y x numbers' sudoku w1 = Inr w'"
      by simp
    ultimately show ?thesis
      using loop.IH(3) [OF skip(1-4) b _ skip(3) _ loop.prems(7)] by blast
  next
    case (set_error num numbers' w1 e)
    with loop.prems show ?thesis by simp
  next
    case (solve_error num numbers' w1 sudoku' e)
    with loop.prems show ?thesis by simp
  next
    case (recurse num numbers' w1 sudoku' w2)
    from recurse(5) is_board_set_cell [OF b, of num]
    have s': "sudoku' = put sudoku y x num" and b': "is_board sudoku'" by simp_all
    from pop_random_facts(1,2) [OF recurse(1,2)] loop.prems(4)
    have num: "1 \<le> num" "num \<le> 9" and sub: "set numbers' \<subseteq> {1..9}" by auto
    from recurse(4) can_place_free [OF b] have free: "free_for sudoku y x num" by simp
    from recurse(7) loop.prems(6) have run: "try_numbers level y x numbers' sudoku' w2 = Inr w'"
      by simp
    show ?thesis
    proof (cases "solution w2")
      case None
      from loop.IH(2) [OF recurse(1-6) b' b(2,3) sub None run loop.prems(7)]
      show ?thesis by (simp add: s' put_put)
    next
      case (Some s2)
      with try_numbers_keeps [OF _ run] loop.prems(7) have "solution w2 = Some s" by simp
      from loop.IH(1) [OF recurse(1-5) b' recurse(3) recurse(6) this]
      have good: "is_board s" "filled s" "extends sudoku' s"
        "digits sudoku' \<and> conflict_free sudoku' \<longrightarrow> digits s \<and> conflict_free s" by simp_all
      from extends_put [OF b good(3) [unfolded s']] place_valid [OF b free num] good
      show ?thesis by (auto simp: s')
    qed
  qed
qed

text \<open>
  The search finds a solution whenever a completion exists, in whatever order the
  values are drawn.
\<close>

lemma pop_random_rest:
  assumes "xs \<noteq> []" "pop_random xs w = (a, rest, w')"
  shows "set xs \<subseteq> insert a (set rest)" "distinct xs \<Longrightarrow> distinct rest \<and> a \<notin> set rest"
proof -
  obtain k w1 where k: "randrange (length xs) w = (k, w1)" by (cases "randrange (length xs) w")
  with randrange_less [of "length xs" w] assms(1) have lt: "k < length xs" by simp
  from assms(2) k have a: "a = xs ! k" and rest: "rest = take k xs @ drop (Suc k) xs"
    by (simp_all add: pop_random_def)
  have xs: "xs = take k xs @ a # drop (Suc k) xs"
    unfolding a using lt by (rule id_take_nth_drop)
  show "set xs \<subseteq> insert a (set rest)"
    using arg_cong [OF xs, of set] unfolding rest by auto
  assume "distinct xs"
  then have "distinct (take k xs @ a # drop (Suc k) xs)" using xs by simp
  then show "distinct rest \<and> a \<notin> set rest" unfolding rest by auto
qed

lemma completion_value:
  assumes "completes s board" "y < 9" "x < 9"
  shows "1 \<le> s ! y ! x" "s ! y ! x \<le> 9"
proof -
  from assms have "s ! y ! x \<noteq> 0" "0 \<le> s ! y ! x" "s ! y ! x \<le> 9"
    by (auto simp: completes_def filled_def digits_def)
  then show "1 \<le> s ! y ! x" "s ! y ! x \<le> 9" by simp_all
qed

lemma completion_free:
  assumes b: "is_board sudoku" "y < 9" "x < 9"
    and c: "completes s (put sudoku y x 0)" and other: "sudoku ! y ! x \<noteq> s ! y ! x"
  shows "free_for sudoku y x (s ! y ! x)"
  unfolding free_for_def
proof (intro allI impI)
  fix y' x'
  assume r: "y' < 9" "x' < 9" and u: "same_unit y x y' x'"
  show "sudoku ! y' ! x' \<noteq> s ! y ! x"
  proof (cases "y' = y \<and> x' = x")
    case True
    with other show ?thesis by simp
  next
    case False
    then have same: "put sudoku y x 0 ! y' ! x' = sudoku ! y' ! x'"
      using r by (auto simp: nth_put [OF b])
    from c b(2,3) have nz: "s ! y ! x \<noteq> 0" by (auto simp: completes_def filled_def)
    show ?thesis
    proof (cases "sudoku ! y' ! x' = 0")
      case True
      with nz show ?thesis by simp
    next
      case filled: False
      with c r same have "s ! y' ! x' = sudoku ! y' ! x'"
        by (auto simp: completes_def extends_def)
      moreover from c b(2,3) r nz False u have "s ! y ! x \<noteq> s ! y' ! x'"
        unfolding completes_def conflict_free_def by blast
      ultimately show ?thesis by simp
    qed
  qed
qed

lemma completes_put:
  assumes b: "is_board sudoku" "y < 9" "x < 9" and c: "completes s (put sudoku y x 0)"
  shows "completes s (put sudoku y x (s ! y ! x))"
  using c unfolding completes_def extends_def
  by (auto simp: nth_put [OF b] split: if_splits)

lemma solve_complete:
  shows "is_board board \<Longrightarrow> completes s board \<Longrightarrow> solution w = None \<Longrightarrow>
           \<exists>w'. solve level board w = Inr w' \<and> solution w' \<noteq> None"
    and "is_board sudoku \<Longrightarrow> y < 9 \<Longrightarrow> x < 9 \<Longrightarrow> completes s (put sudoku y x 0) \<Longrightarrow>
           solution w \<noteq> None \<or>
             (s ! y ! x \<in> set numbers \<and> sudoku ! y ! x \<notin> set numbers \<and> distinct numbers) \<Longrightarrow>
           \<exists>w'. try_numbers level y x numbers sudoku w = Inr w' \<and> solution w' \<noteq> None"
proof (induction level board w and level y x numbers sudoku w rule: solve_induct)
  case (solve level board w)
  show ?case
  proof (cases "first_zero board")
    case None
    then show ?thesis by (simp add: solve_unfold)
  next
    case (Some c)
    obtain y x where c: "c = (y, x)" by (cases c)
    from first_zero_board [OF solve.prems(1) Some [unfolded c]]
    have r: "y < 9" "x < 9" "board ! y ! x = 0" by simp_all
    have same: "put board y x 0 = board" by (rule put_same [OF solve.prems(1) r])
    from completion_value [OF solve.prems(2) r(1,2)] r(3)
    have "s ! y ! x \<in> set [1..9] \<and> board ! y ! x \<notin> set [1..9] \<and> distinct [1..9]" by simp
    with solve.IH [OF Some [unfolded c] solve.prems(1) r(1,2)] solve.prems(2) same Some c
    show ?thesis by (simp add: solve_unfold)
  qed
next
  case (loop level y x numbers sudoku w)
  note b = loop.prems(1-3) and c = loop.prems(4)
  show ?case
  proof (cases rule: try_numbers_cases [of numbers level y x sudoku w])
    case empty
    with loop.prems(5) show ?thesis by simp
  next
    case (found num numbers' w1)
    then show ?thesis by simp
  next
    case (place_error num numbers' w1 e)
    with can_place_board [OF b] show ?thesis by simp
  next
    case (skip num numbers' w1)
    from skip(3) pop_random_frame(1) [OF skip(2)] loop.prems(5)
    have ns: "s ! y ! x \<in> set numbers" "sudoku ! y ! x \<notin> set numbers" "distinct numbers"
      by simp_all
    from skip(4) can_place_free [OF b] have "\<not> free_for sudoku y x num" by simp
    moreover from ns have "sudoku ! y ! x \<noteq> s ! y ! x" by metis
    ultimately have "num \<noteq> s ! y ! x"
      using completion_free [OF b c] by blast
    with ns pop_random_rest [OF skip(1,2)] pop_random_facts(2) [OF skip(1,2)]
    have "s ! y ! x \<in> set numbers' \<and> sudoku ! y ! x \<notin> set numbers' \<and> distinct numbers'"
      by auto
    with loop.IH(3) [OF skip(1-4) b c] skip(5) show ?thesis by simp
  next
    case (set_error num numbers' w1 e)
    with is_board_set_cell(1) [OF b] show ?thesis by simp
  next
    case (solve_error num numbers' w1 sudoku' e)
    from solve_error(5) is_board_set_cell [OF b, of num] have "is_board sudoku'" by simp
    from solve_no_error(1) [OF this, of "Suc level" w1] solve_error(6) show ?thesis by simp
  next
    case (recurse num numbers' w1 sudoku' w2)
    from recurse(5) is_board_set_cell [OF b, of num]
    have s': "sudoku' = put sudoku y x num" and b': "is_board sudoku'" by simp_all
    from recurse(3) pop_random_frame(1) [OF recurse(2)] loop.prems(5)
    have ns: "s ! y ! x \<in> set numbers" "sudoku ! y ! x \<notin> set numbers" "distinct numbers"
      by simp_all
    have c': "completes s (put sudoku' y x 0)" using c by (simp add: s' put_put)
    have "solution w2 \<noteq> None \<or>
      (s ! y ! x \<in> set numbers' \<and> sudoku' ! y ! x \<notin> set numbers' \<and> distinct numbers')"
    proof (cases "num = s ! y ! x")
      case True
      with completes_put [OF b c] have "completes s sudoku'" by (simp add: s')
      from loop.IH(1) [OF recurse(1-5) b' this recurse(3)] recurse(6)
      show ?thesis by simp
    next
      case False
      moreover have "sudoku' ! y ! x = num" by (simp add: s' nth_put [OF b b(2,3)])
      ultimately show ?thesis
        using ns pop_random_rest [OF recurse(1,2)] by auto
    qed
    from loop.IH(2) [OF recurse(1-6) b' b(2,3) c' this] recurse(7)
    show ?thesis by simp
  qed
qed

text \<open>
  The same two facts without any condition on the filled cells: a solution that the
  search stores fills the board, and the search finds a solution whenever some grid
  fills the board.
\<close>

lemma fills_self:
  assumes "is_board board" "first_zero board = None"
  shows "fills board board"
proof -
  from assms have "\<forall>y<9. \<forall>x<9. board ! y ! x \<noteq> 0"
    by (auto simp: first_zero_None is_board_def list_all_length)
  with assms(1) show ?thesis by (simp add: fills_def extends_def)
qed

lemma fills_placed:
  assumes b: "is_board sudoku" "y < 9" "x < 9"
    and free: "free_for sudoku y x num" and num: "1 \<le> num" "num \<le> 9"
    and f: "fills s (put sudoku y x num)"
  shows "fills s (put sudoku y x 0)"
proof -
  from f have s: "is_board s" and ext: "extends (put sudoku y x num) s"
    and ok: "\<And>a c. a < 9 \<Longrightarrow> c < 9 \<Longrightarrow> put sudoku y x num ! a ! c = 0 \<Longrightarrow> placed_ok s a c"
    by (auto simp: fills_def)
  from ext b(2,3) num have here: "s ! y ! x = num"
    by (auto simp: extends_def nth_put [OF b b(2,3)])
  have there: "s ! a ! c = sudoku ! a ! c"
    if "a < 9" "c < 9" "\<not> (a = y \<and> c = x)" "sudoku ! a ! c \<noteq> 0" for a c
    using ext that by (auto simp: extends_def nth_put [OF b that(1,2)])
  have empty: "placed_ok s a c"
    if "a < 9" "c < 9" "\<not> (a = y \<and> c = x)" "sudoku ! a ! c = 0" for a c
    using ok [OF that(1,2)] that by (simp add: nth_put [OF b that(1,2)])
  have new: "placed_ok s y x"
    unfolding placed_ok_def
  proof (intro conjI allI impI)
    show "1 \<le> s ! y ! x" "s ! y ! x \<le> 9" using here num by simp_all
  next
    fix a c
    assume r: "a < 9" "c < 9" and h: "(a \<noteq> y \<or> c \<noteq> x) \<and> same_unit y x a c"
    then have ne: "\<not> (a = y \<and> c = x)" and u: "same_unit y x a c" by auto
    show "s ! a ! c \<noteq> s ! y ! x"
    proof (cases "sudoku ! a ! c = 0")
      case True
      from empty [OF r ne True] b(2,3) ne same_unit_sym [OF u]
      have "s ! y ! x \<noteq> s ! a ! c" unfolding placed_ok_def by blast
      then show ?thesis by simp
    next
      case False
      from free r u have "sudoku ! a ! c \<noteq> num" by (auto simp: free_for_def)
      with there [OF r ne False] here show ?thesis by simp
    qed
  qed
  have "placed_ok s a c" if "a < 9" "c < 9" "put sudoku y x 0 ! a ! c = 0" for a c
  proof (cases "a = y \<and> c = x")
    case True
    with new show ?thesis by simp
  next
    case False
    with that have "sudoku ! a ! c = 0" by (simp add: nth_put [OF b that(1,2)])
    from empty [OF that(1,2) False this] show ?thesis .
  qed
  with s extends_put [OF b ext] show ?thesis by (simp add: fills_def)
qed

lemma solve_fills:
  shows "is_board board \<Longrightarrow> solution w = None \<Longrightarrow> solve level board w = Inr w' \<Longrightarrow>
           solution w' = Some s \<Longrightarrow> fills s board"
    and "is_board sudoku \<Longrightarrow> y < 9 \<Longrightarrow> x < 9 \<Longrightarrow> set numbers \<subseteq> {1..9} \<Longrightarrow>
           solution w = None \<Longrightarrow> try_numbers level y x numbers sudoku w = Inr w' \<Longrightarrow>
           solution w' = Some s \<Longrightarrow> fills s (put sudoku y x 0)"
proof (induction level board w and level y x numbers sudoku w arbitrary: w' s and w' s
    rule: solve_induct)
  case (solve level board w)
  show ?case
  proof (cases "first_zero board")
    case None
    with solve.prems have s: "s = board" by (auto simp: solve_unfold)
    from fills_self [OF solve.prems(1) None] show ?thesis by (simp add: s)
  next
    case (Some c)
    obtain y x where c: "c = (y, x)" by (cases c)
    from first_zero_board [OF solve.prems(1) Some [unfolded c]]
    have r: "y < 9" "x < 9" "board ! y ! x = 0" by simp_all
    let ?w = "w\<lparr>deepest := max (deepest w) level\<rparr>"
    have run: "try_numbers level y x [1..9] board ?w = Inr w'"
      using solve.prems(3) Some c by (simp add: solve_unfold)
    have "solution ?w = None" using solve.prems(2) by simp
    from solve.IH [OF Some [unfolded c] solve.prems(1) r(1,2) _ this run solve.prems(4)]
    show ?thesis by (simp add: put_same [OF solve.prems(1) r])
  qed
next
  case (loop level y x numbers sudoku w)
  note b = loop.prems(1-3)
  show ?case
  proof (cases rule: try_numbers_cases [of numbers level y x sudoku w])
    case empty
    with loop.prems show ?thesis by simp
  next
    case (found num numbers' w1)
    with loop.prems pop_random_frame(1) [OF found(2)] show ?thesis by simp
  next
    case (place_error num numbers' w1 e)
    with loop.prems show ?thesis by simp
  next
    case (skip num numbers' w1)
    from pop_random_facts(2) [OF skip(1,2)] loop.prems(4) have "set numbers' \<subseteq> {1..9}" by blast
    moreover from skip(5) loop.prems(6) have "try_numbers level y x numbers' sudoku w1 = Inr w'"
      by simp
    ultimately show ?thesis
      using loop.IH(3) [OF skip(1-4) b _ skip(3) _ loop.prems(7)] by blast
  next
    case (set_error num numbers' w1 e)
    with loop.prems show ?thesis by simp
  next
    case (solve_error num numbers' w1 sudoku' e)
    with loop.prems show ?thesis by simp
  next
    case (recurse num numbers' w1 sudoku' w2)
    from recurse(5) is_board_set_cell [OF b, of num]
    have s': "sudoku' = put sudoku y x num" and b': "is_board sudoku'" by simp_all
    from pop_random_facts(1,2) [OF recurse(1,2)] loop.prems(4)
    have num: "1 \<le> num" "num \<le> 9" and sub: "set numbers' \<subseteq> {1..9}" by auto
    from recurse(4) can_place_free [OF b] have free: "free_for sudoku y x num" by simp
    from recurse(7) loop.prems(6) have run: "try_numbers level y x numbers' sudoku' w2 = Inr w'"
      by simp
    show ?thesis
    proof (cases "solution w2")
      case None
      from loop.IH(2) [OF recurse(1-6) b' b(2,3) sub None run loop.prems(7)]
      show ?thesis by (simp add: s' put_put)
    next
      case (Some s2)
      with try_numbers_keeps [OF _ run] loop.prems(7) have "solution w2 = Some s" by simp
      from loop.IH(1) [OF recurse(1-5) b' recurse(3) recurse(6) this]
      have "fills s (put sudoku y x num)" by (simp add: s')
      from fills_placed [OF b free num this] show ?thesis .
    qed
  qed
qed

lemma fills_value:
  assumes "fills s (put sudoku y x 0)" "is_board sudoku" "y < 9" "x < 9"
  shows "placed_ok s y x"
  using assms by (auto simp: fills_def nth_put)

lemma fills_free:
  assumes b: "is_board sudoku" "y < 9" "x < 9"
    and c: "fills s (put sudoku y x 0)" and other: "sudoku ! y ! x \<noteq> s ! y ! x"
  shows "free_for sudoku y x (s ! y ! x)"
  unfolding free_for_def
proof (intro allI impI)
  fix y' x'
  assume r: "y' < 9" "x' < 9" and u: "same_unit y x y' x'"
  from fills_value [OF c b] have ok: "placed_ok s y x" .
  show "sudoku ! y' ! x' \<noteq> s ! y ! x"
  proof (cases "y' = y \<and> x' = x")
    case True
    with other show ?thesis by simp
  next
    case False
    then have same: "put sudoku y x 0 ! y' ! x' = sudoku ! y' ! x'"
      using r by (auto simp: nth_put [OF b])
    from ok have nz: "s ! y ! x \<noteq> 0" by (simp add: placed_ok_def)
    show ?thesis
    proof (cases "sudoku ! y' ! x' = 0")
      case True
      with nz show ?thesis by simp
    next
      case filled: False
      with c r same have "s ! y' ! x' = sudoku ! y' ! x'"
        by (auto simp: fills_def extends_def)
      moreover from ok r False u have "s ! y' ! x' \<noteq> s ! y ! x"
        unfolding placed_ok_def by blast
      ultimately show ?thesis by simp
    qed
  qed
qed

lemma fills_put:
  assumes b: "is_board sudoku" "y < 9" "x < 9" and c: "fills s (put sudoku y x 0)"
  shows "fills s (put sudoku y x (s ! y ! x))"
  using c unfolding fills_def extends_def
  by (auto simp: nth_put [OF b] split: if_splits)

lemma solve_finds:
  shows "is_board board \<Longrightarrow> fills s board \<Longrightarrow> solution w = None \<Longrightarrow>
           \<exists>w'. solve level board w = Inr w' \<and> solution w' \<noteq> None"
    and "is_board sudoku \<Longrightarrow> y < 9 \<Longrightarrow> x < 9 \<Longrightarrow> fills s (put sudoku y x 0) \<Longrightarrow>
           solution w \<noteq> None \<or>
             (s ! y ! x \<in> set numbers \<and> sudoku ! y ! x \<notin> set numbers \<and> distinct numbers) \<Longrightarrow>
           \<exists>w'. try_numbers level y x numbers sudoku w = Inr w' \<and> solution w' \<noteq> None"
proof (induction level board w and level y x numbers sudoku w rule: solve_induct)
  case (solve level board w)
  show ?case
  proof (cases "first_zero board")
    case None
    then show ?thesis by (simp add: solve_unfold)
  next
    case (Some c)
    obtain y x where c: "c = (y, x)" by (cases c)
    from first_zero_board [OF solve.prems(1) Some [unfolded c]]
    have r: "y < 9" "x < 9" "board ! y ! x = 0" by simp_all
    have same: "put board y x 0 = board" by (rule put_same [OF solve.prems(1) r])
    from solve.prems(2) r have "placed_ok s y x" by (simp add: fills_def)
    then have "1 \<le> s ! y ! x" "s ! y ! x \<le> 9" by (simp_all add: placed_ok_def)
    with r(3)
    have "s ! y ! x \<in> set [1..9] \<and> board ! y ! x \<notin> set [1..9] \<and> distinct [1..9]" by simp
    with solve.IH [OF Some [unfolded c] solve.prems(1) r(1,2)] solve.prems(2) same Some c
    show ?thesis by (simp add: solve_unfold)
  qed
next
  case (loop level y x numbers sudoku w)
  note b = loop.prems(1-3) and c = loop.prems(4)
  show ?case
  proof (cases rule: try_numbers_cases [of numbers level y x sudoku w])
    case empty
    with loop.prems(5) show ?thesis by simp
  next
    case (found num numbers' w1)
    then show ?thesis by simp
  next
    case (place_error num numbers' w1 e)
    with can_place_board [OF b] show ?thesis by simp
  next
    case (skip num numbers' w1)
    from skip(3) pop_random_frame(1) [OF skip(2)] loop.prems(5)
    have ns: "s ! y ! x \<in> set numbers" "sudoku ! y ! x \<notin> set numbers" "distinct numbers"
      by simp_all
    from skip(4) can_place_free [OF b] have "\<not> free_for sudoku y x num" by simp
    moreover from ns have "sudoku ! y ! x \<noteq> s ! y ! x" by metis
    ultimately have "num \<noteq> s ! y ! x"
      using fills_free [OF b c] by blast
    with ns pop_random_rest [OF skip(1,2)] pop_random_facts(2) [OF skip(1,2)]
    have "s ! y ! x \<in> set numbers' \<and> sudoku ! y ! x \<notin> set numbers' \<and> distinct numbers'"
      by auto
    with loop.IH(3) [OF skip(1-4) b c] skip(5) show ?thesis by simp
  next
    case (set_error num numbers' w1 e)
    with is_board_set_cell(1) [OF b] show ?thesis by simp
  next
    case (solve_error num numbers' w1 sudoku' e)
    from solve_error(5) is_board_set_cell [OF b, of num] have "is_board sudoku'" by simp
    from solve_no_error(1) [OF this, of "Suc level" w1] solve_error(6) show ?thesis by simp
  next
    case (recurse num numbers' w1 sudoku' w2)
    from recurse(5) is_board_set_cell [OF b, of num]
    have s': "sudoku' = put sudoku y x num" and b': "is_board sudoku'" by simp_all
    from recurse(3) pop_random_frame(1) [OF recurse(2)] loop.prems(5)
    have ns: "s ! y ! x \<in> set numbers" "sudoku ! y ! x \<notin> set numbers" "distinct numbers"
      by simp_all
    have c': "fills s (put sudoku' y x 0)" using c by (simp add: s' put_put)
    have "solution w2 \<noteq> None \<or>
      (s ! y ! x \<in> set numbers' \<and> sudoku' ! y ! x \<notin> set numbers' \<and> distinct numbers')"
    proof (cases "num = s ! y ! x")
      case True
      with fills_put [OF b c] have "fills s sudoku'" by (simp add: s')
      from loop.IH(1) [OF recurse(1-5) b' this recurse(3)] recurse(6)
      show ?thesis by simp
    next
      case False
      moreover have "sudoku' ! y ! x = num" by (simp add: s' nth_put [OF b b(2,3)])
      ultimately show ?thesis
        using ns pop_random_rest [OF recurse(1,2)] by auto
    qed
    from loop.IH(2) [OF recurse(1-6) b' b(2,3) c' this] recurse(7)
    show ?thesis by simp
  qed
qed

text \<open>
  The search changes nothing but the solution slot, the random source and the observer
  of the nesting level.
\<close>

lemma solve_frame:
  shows "solve level board w = Inr w' \<Longrightarrow>
           clues w' = clues w \<and> puzzle w' = puzzle w \<and> solve_calls w' = solve_calls w"
    and "try_numbers level y x numbers sudoku w = Inr w' \<Longrightarrow>
           clues w' = clues w \<and> puzzle w' = puzzle w \<and> solve_calls w' = solve_calls w"
proof (induction level board w and level y x numbers sudoku w arbitrary: w' and w'
    rule: solve_induct)
  case (solve level board w)
  show ?case
  proof (cases "first_zero board")
    case None
    with solve.prems show ?thesis by (auto simp: solve_unfold)
  next
    case (Some c)
    obtain y x where c: "c = (y, x)" by (cases c)
    from solve.prems Some c
    have "try_numbers level y x [1..9] board (w\<lparr>deepest := max (deepest w) level\<rparr>) = Inr w'"
      by (simp add: solve_unfold)
    from solve.IH [OF Some [unfolded c] this] show ?thesis by simp
  qed
next
  case (loop level y x numbers sudoku w)
  show ?case
  proof (cases rule: try_numbers_cases [of numbers level y x sudoku w])
    case empty
    with loop.prems show ?thesis by simp
  next
    case (found num numbers' w1)
    with loop.prems pop_random_frame [OF found(2)] show ?thesis by simp
  next
    case (place_error num numbers' w1 e)
    with loop.prems show ?thesis by simp
  next
    case (skip num numbers' w1)
    with loop.prems have "try_numbers level y x numbers' sudoku w1 = Inr w'" by simp
    from loop.IH(3) [OF skip(1-4) this] pop_random_frame [OF skip(2)] show ?thesis by simp
  next
    case (set_error num numbers' w1 e)
    with loop.prems show ?thesis by simp
  next
    case (solve_error num numbers' w1 sudoku' e)
    with loop.prems show ?thesis by simp
  next
    case (recurse num numbers' w1 sudoku' w2)
    with loop.prems have "try_numbers level y x numbers' sudoku' w2 = Inr w'" by simp
    from loop.IH(2) [OF recurse(1-6) this] loop.IH(1) [OF recurse(1-6)]
      pop_random_frame [OF recurse(2)]
    show ?thesis by simp
  qed
qed

text \<open>
  The nesting level of \<open>solve\<close> grows by one per cell that is filled, so it never exceeds
  the level of the outermost call plus the number of empty cells.
\<close>

lemma count_value_put_nonzero:
  "v \<noteq> 0 \<Longrightarrow> count_value 0 (put board y x v) = count_value 0 (put board y x 1)"
proof (cases "y < length board \<and> x < length (board ! y)")
  case True
  assume "v \<noteq> 0"
  with True count_value_put [of y board x 0 v] count_value_put [of y board x 0 1]
  show ?thesis by (simp split: if_splits)
next
  case False
  then show ?thesis by (simp add: put_out_of_range)
qed

lemma solve_depth:
  shows "solve level board w = Inr w' \<Longrightarrow>
           deepest w' \<le> max (deepest w) (level + count_value 0 board)"
    and "0 \<notin> set numbers \<Longrightarrow> try_numbers level y x numbers sudoku w = Inr w' \<Longrightarrow>
           deepest w' \<le> max (deepest w) (Suc level + count_value 0 (put sudoku y x 1))"
proof (induction level board w and level y x numbers sudoku w arbitrary: w' and w'
    rule: solve_induct)
  case (solve level board w)
  show ?case
  proof (cases "first_zero board")
    case None
    with solve.prems show ?thesis by (auto simp: solve_unfold)
  next
    case (Some c)
    obtain y x where c: "c = (y, x)" by (cases c)
    from first_zero_Some [OF Some [unfolded c]] count_value_put [of y board x 0 1]
    have count: "count_value 0 board = Suc (count_value 0 (put board y x 1))" by simp
    from solve.prems Some c
    have "try_numbers level y x [1..9] board (w\<lparr>deepest := max (deepest w) level\<rparr>) = Inr w'"
      by (simp add: solve_unfold)
    from solve.IH [OF Some [unfolded c] _ this] show ?thesis by (simp add: count)
  qed
next
  case (loop level y x numbers sudoku w)
  show ?case
  proof (cases rule: try_numbers_cases [of numbers level y x sudoku w])
    case empty
    with loop.prems show ?thesis by simp
  next
    case (found num numbers' w1)
    with loop.prems pop_random_frame(4) [OF found(2)] show ?thesis by simp
  next
    case (place_error num numbers' w1 e)
    with loop.prems show ?thesis by simp
  next
    case (skip num numbers' w1)
    with loop.prems have run: "try_numbers level y x numbers' sudoku w1 = Inr w'" by simp
    from pop_random_facts(2) [OF skip(1,2)] loop.prems(1) have "0 \<notin> set numbers'" by blast
    from loop.IH(3) [OF skip(1-4) this run] pop_random_frame(4) [OF skip(2)]
    show ?thesis by simp
  next
    case (set_error num numbers' w1 e)
    with loop.prems show ?thesis by simp
  next
    case (solve_error num numbers' w1 sudoku' e)
    with loop.prems show ?thesis by simp
  next
    case (recurse num numbers' w1 sudoku' w2)
    with loop.prems have run: "try_numbers level y x numbers' sudoku' w2 = Inr w'" by simp
    from pop_random_facts(1,2) [OF recurse(1,2)] loop.prems(1)
    have "num \<noteq> 0" "0 \<notin> set numbers'" by auto
    from set_cell_put [OF recurse(5)] have s': "sudoku' = put sudoku y x num" .
    have count: "count_value 0 (put sudoku y x num) = count_value 0 (put sudoku y x 1)"
      using \<open>num \<noteq> 0\<close> by (rule count_value_put_nonzero)
    from loop.IH(2) [OF recurse(1-6) \<open>0 \<notin> set numbers'\<close> run] loop.IH(1) [OF recurse(1-6)]
      pop_random_frame(4) [OF recurse(2)]
    show ?thesis by (simp add: count s' put_put)
  qed
qed

lemma count_value_board: "is_board board \<Longrightarrow> count_value a board \<le> 81"
proof -
  assume b: "is_board board"
  have "count_value a board \<le> sum_list (map length board)"
    unfolding count_value_def by (rule sum_list_mono) (simp add: count_le_length)
  also have "map length board = replicate 9 9"
    using b by (auto simp: is_board_def list_all_length intro!: nth_equalityI)
  finally show ?thesis by (simp add: sum_list_replicate)
qed

text \<open>
  When the search finds a solution, it stores it at the level that the number of empty
  cells of the board gives: every empty cell costs exactly one level.
\<close>

lemma count_value_full:
  assumes "first_zero board = None"
  shows "count_value 0 board = 0"
proof -
  have "count_list r 0 = 0" if "r \<in> set board" for r
  proof -
    from that obtain y where y: "y < length board" "r = board ! y"
      by (auto simp: in_set_conv_nth)
    with assms have "\<forall>x < length r. r ! x \<noteq> 0" by (simp add: first_zero_None)
    then have "0 \<notin> set r" by (auto simp: in_set_conv_nth)
    then show ?thesis by (simp add: count_list_0_iff)
  qed
  then show ?thesis by (simp add: count_value_def)
qed

lemma solve_reaches:
  shows "solve level board w = Inr w' \<Longrightarrow>
           deepest w \<le> deepest w' \<and>
           (solution w = None \<longrightarrow> solution w' \<noteq> None \<longrightarrow> level + count_value 0 board \<le> deepest w')"
    and "0 \<notin> set numbers \<Longrightarrow> try_numbers level y x numbers sudoku w = Inr w' \<Longrightarrow>
           deepest w \<le> deepest w' \<and>
           (solution w = None \<longrightarrow> solution w' \<noteq> None \<longrightarrow>
              Suc level + count_value 0 (put sudoku y x 1) \<le> deepest w')"
proof (induction level board w and level y x numbers sudoku w arbitrary: w' and w'
    rule: solve_induct)
  case (solve level board w)
  show ?case
  proof (cases "first_zero board")
    case None
    with solve.prems count_value_full [OF None] show ?thesis by (auto simp: solve_unfold)
  next
    case (Some c)
    obtain y x where c: "c = (y, x)" by (cases c)
    from first_zero_Some [OF Some [unfolded c]] count_value_put [of y board x 0 1]
    have count: "count_value 0 board = Suc (count_value 0 (put board y x 1))" by simp
    from solve.prems Some c
    have "try_numbers level y x [1..9] board (w\<lparr>deepest := max (deepest w) level\<rparr>) = Inr w'"
      by (simp add: solve_unfold)
    from solve.IH [OF Some [unfolded c] _ this] show ?thesis by (simp add: count)
  qed
next
  case (loop level y x numbers sudoku w)
  show ?case
  proof (cases rule: try_numbers_cases [of numbers level y x sudoku w])
    case empty
    with loop.prems show ?thesis by simp
  next
    case (found num numbers' w1)
    with loop.prems pop_random_frame(1,4) [OF found(2)] show ?thesis by simp
  next
    case (place_error num numbers' w1 e)
    with loop.prems show ?thesis by simp
  next
    case (skip num numbers' w1)
    with loop.prems have run: "try_numbers level y x numbers' sudoku w1 = Inr w'" by simp
    from pop_random_facts(2) [OF skip(1,2)] loop.prems(1) have "0 \<notin> set numbers'" by blast
    from loop.IH(3) [OF skip(1-4) this run] pop_random_frame(1,4) [OF skip(2)]
    show ?thesis by simp
  next
    case (set_error num numbers' w1 e)
    with loop.prems show ?thesis by simp
  next
    case (solve_error num numbers' w1 sudoku' e)
    with loop.prems show ?thesis by simp
  next
    case (recurse num numbers' w1 sudoku' w2)
    with loop.prems have run: "try_numbers level y x numbers' sudoku' w2 = Inr w'" by simp
    from pop_random_facts(1,2) [OF recurse(1,2)] loop.prems(1)
    have "num \<noteq> 0" "0 \<notin> set numbers'" by auto
    from set_cell_put [OF recurse(5)] have s': "sudoku' = put sudoku y x num" .
    have count: "count_value 0 (put sudoku y x num) = count_value 0 (put sudoku y x 1)"
      using \<open>num \<noteq> 0\<close> by (rule count_value_put_nonzero)
    note down = loop.IH(1) [OF recurse(1-6)]
    note rest = loop.IH(2) [OF recurse(1-6) \<open>0 \<notin> set numbers'\<close> run]
    note pop = pop_random_frame(1,4) [OF recurse(2)]
    show ?thesis
    proof (cases "solution w2")
      case None
      with down rest pop show ?thesis by (simp add: count s' put_put)
    next
      case (Some b)
      with down rest pop recurse(3) show ?thesis by (simp add: count s' put_put)
    qed
  qed
qed

section \<open>Facts about the uniqueness test\<close>

lemma differs_rows:
  "length r1 = length r2 \<Longrightarrow> list_ex (\<lambda>d. d \<noteq> (0::int)) (map2 (-) r1 r2) = (r1 \<noteq> r2)"
  by (induction r1 r2 rule: list_induct2) auto

lemma differs_boards:
  "list_all2 (\<lambda>r1 r2. length r1 = length r2) a b \<Longrightarrow>
     list_ex (\<lambda>d. d \<noteq> (0::int)) (concat (map2 (map2 (-)) a b)) = (a \<noteq> b)"
proof (induction a b rule: list_all2_induct)
  case Nil
  then show ?case by simp
next
  case (Cons r1 a r2 b)
  from differs_rows [OF Cons(1)] Cons(3) show ?case
    by simp
qed

lemma differs_is_board:
  assumes "is_board a" "is_board b"
  shows "differs (Some a) (Some b) = Inr (a \<noteq> b)"
proof -
  from assms have "list_all2 (\<lambda>r1 r2. length r1 = length r2) a b"
    by (auto simp: is_board_def list_all_length list_all2_conv_all_nth)
  from differs_boards [OF this] show ?thesis by (simp add: differs_def)
qed

lemma init_solve_False:
  "init_solve board False w =
     solve 0 board (w\<lparr>solution := None, solve_calls := Suc (solve_calls w)\<rparr>)"
  by (simp add: init_solve_def split: sum.splits)

lemma init_solve_frame:
  assumes "init_solve board False w = Inr w'"
  shows "clues w' = clues w" "puzzle w' = puzzle w" "solve_calls w' = Suc (solve_calls w)"
  using solve_frame(1) [OF assms [unfolded init_solve_False]] by simp_all

lemma init_solve_complete:
  assumes "is_board board" "completes s board"
  shows "\<exists>w' r. init_solve board False w = Inr w' \<and> solution w' = Some r \<and> is_board r"
proof -
  let ?w = "w\<lparr>solution := None, solve_calls := Suc (solve_calls w)\<rparr>"
  from solve_complete(1) [OF assms, of ?w 0]
  obtain w' r where run: "solve 0 board ?w = Inr w'" and r: "solution w' = Some r" by auto
  from solve_sound(1) [OF assms(1) _ run r] have "is_board r" by simp
  with run r show ?thesis by (auto simp: init_solve_False)
qed

lemma init_solve_fills:
  assumes "is_board board"
  shows "\<exists>w'. init_solve board False w = Inr w' \<and>
           (solution w' = None \<longleftrightarrow> (\<forall>s. \<not> fills s board)) \<and>
           (\<forall>s. solution w' = Some s \<longrightarrow> fills s board)"
proof -
  let ?w = "w\<lparr>solution := None, solve_calls := Suc (solve_calls w)\<rparr>"
  from solve_no_error(1) [OF assms, of 0 ?w] obtain w' where run: "solve 0 board ?w = Inr w'"
    by blast
  have sound: "fills s board" if "solution w' = Some s" for s
    using solve_fills(1) [OF assms _ run that] by simp
  have complete: "solution w' \<noteq> None" if "fills s board" for s
    using solve_finds(1) [OF assms that, of ?w 0] run by simp
  from sound complete have "solution w' = None \<longleftrightarrow> (\<forall>s. \<not> fills s board)"
    by (cases "solution w'") auto
  with run sound show ?thesis by (simp add: init_solve_False)
qed

lemma solve_n_calls: "solve_n board n w = Inr w' \<Longrightarrow> solve_calls w' = solve_calls w + n"
proof (induction n arbitrary: w)
  case 0
  then show ?case by simp
next
  case (Suc n)
  then show ?case
    by (auto split: sum.splits dest!: init_solve_frame(3))
qed

lemma unique_loop_runs:
  assumes b: "is_board board" "completes s board" and ref: "is_board ref"
  shows "\<exists>res w' k. unique_loop board (Some ref) n w = Inr (res, w') \<and>
           k \<le> n \<and> solve_n board k w = Inr w' \<and>
           (\<forall>j. 1 \<le> j \<and> j < k \<longrightarrow> (\<exists>wj. solve_n board j w = Inr wj \<and> solution wj = Some ref)) \<and>
           (res \<longrightarrow> k = n \<and> (n = 0 \<or> solution w' = Some ref)) \<and>
           (\<not> res \<longrightarrow> 1 \<le> k \<and> solution w' \<noteq> Some ref)"
proof (induction n arbitrary: w)
  case 0
  show ?case by (rule exI [of _ True], rule exI [of _ w], rule exI [of _ 0]) simp
next
  case (Suc n)
  from init_solve_complete [OF b, of w]
  obtain w1 r where first: "init_solve board False w = Inr w1" "solution w1 = Some r" "is_board r"
    by auto
  have d: "differs (solution w1) (Some ref) = Inr (r \<noteq> ref)"
    using first differs_is_board [OF first(3) ref] by simp
  show ?case
  proof (cases "r = ref")
    case False
    with first d have "unique_loop board (Some ref) (Suc n) w = Inr (False, w1)" by simp
    moreover have "solve_n board 1 w = Inr w1" using first by simp
    moreover have "solution w1 \<noteq> Some ref" using first False by simp
    ultimately show ?thesis
      by (intro exI [of _ False] exI [of _ w1] exI [of _ 1]) auto
  next
    case True
    from Suc [of w1] obtain res w' k where
      ih: "unique_loop board (Some ref) n w1 = Inr (res, w')" "k \<le> n" "solve_n board k w1 = Inr w'"
        "\<forall>j. 1 \<le> j \<and> j < k \<longrightarrow> (\<exists>wj. solve_n board j w1 = Inr wj \<and> solution wj = Some ref)"
        "res \<longrightarrow> k = n \<and> (n = 0 \<or> solution w' = Some ref)"
        "\<not> res \<longrightarrow> 1 \<le> k \<and> solution w' \<noteq> Some ref"
      by blast
    have run: "unique_loop board (Some ref) (Suc n) w = Inr (res, w')"
      using first d True ih(1) by simp
    have step: "solve_n board (Suc j) w = solve_n board j w1" for j
      using first by simp
    have earlier: "\<exists>wj. solve_n board j w = Inr wj \<and> solution wj = Some ref"
      if "1 \<le> j \<and> j < Suc k" for j
    proof (cases j)
      case 0
      with that show ?thesis by simp
    next
      case (Suc i)
      show ?thesis
      proof (cases "i = 0")
        case True
        with Suc first \<open>r = ref\<close> show ?thesis by simp
      next
        case False
        with Suc that have "1 \<le> i \<and> i < k" by simp
        with ih(4) have "\<exists>wj. solve_n board i w1 = Inr wj \<and> solution wj = Some ref" by blast
        then show ?thesis unfolding Suc step .
      qed
    qed
    have last: "res \<longrightarrow> Suc k = Suc n \<and> solution w' = Some ref"
    proof
      assume res
      with ih(5) have k: "k = n" "n = 0 \<or> solution w' = Some ref" by simp_all
      show "Suc k = Suc n \<and> solution w' = Some ref"
      proof (cases n)
        case 0
        with k ih(3) first True show ?thesis by simp
      next
        case (Suc m)
        with k show ?thesis by simp
      qed
    qed
    have sk: "solve_n board (Suc k) w = Inr w'" unfolding step by (rule ih(3))
    from ih(2,6) have bounds: "Suc k \<le> Suc n" "\<not> res \<longrightarrow> 1 \<le> Suc k \<and> solution w' \<noteq> Some ref"
      by simp_all
    from earlier have earlier': "\<forall>j. 1 \<le> j \<and> j < Suc k \<longrightarrow>
        (\<exists>wj. solve_n board j w = Inr wj \<and> solution wj = Some ref)" by blast
    from last have last': "res \<longrightarrow> Suc k = Suc n \<and> (Suc n = 0 \<or> solution w' = Some ref)" by blast
    from run bounds(1) sk earlier' last' bounds(2) show ?thesis by blast
  qed
qed

lemma unique_no_error:
  assumes "is_board board" "completes s board"
  shows "\<exists>u w'. unique board depth w = Inr (u, w') \<and> clues w' = clues w"
proof -
  from init_solve_complete [OF assms, of w]
  obtain w1 r where first: "init_solve board False w = Inr w1" "solution w1 = Some r" "is_board r"
    by auto
  from unique_loop_runs [OF assms first(3), of depth w1]
  obtain res w' k where run: "unique_loop board (Some r) depth w1 = Inr (res, w')"
    and k: "solve_n board k w1 = Inr w'" by blast
  have "clues w' = clues w1"
    using k
  proof (induction k arbitrary: w1)
    case 0
    then show ?case by simp
  next
    case (Suc k)
    then show ?case by (auto split: sum.splits dest!: init_solve_frame(1))
  qed
  with run first init_solve_frame(1) [OF first(1)] show ?thesis
    by (simp add: unique_def)
qed

section \<open>Grid properties in computable form\<close>

lemma board_all:
  assumes "is_board board"
  shows "list_all (list_all P) board = (\<forall>y<9. \<forall>x<9. P (board ! y ! x))"
  using assms by (auto simp: is_board_def list_all_length)

lemma cells_in_digits: "is_board board \<Longrightarrow> cells_in 0 9 board = digits board"
  by (simp add: cells_in_def digits_def board_all)

lemma populated_filled: "is_board board \<Longrightarrow> populated board = filled board"
  by (simp add: populated_def filled_def board_all)

lemma cells_in_solution:
  "is_board s \<Longrightarrow> cells_in 1 9 s = (digits s \<and> filled s)"
proof -
  assume b: "is_board s"
  have "(1 \<le> n \<and> n \<le> 9) = ((0 \<le> n \<and> n \<le> 9) \<and> n \<noteq> 0)" for n :: int
    by arith
  then show ?thesis
    unfolding cells_in_def digits_def filled_def by (auto simp: board_all [OF b])
qed

lemma preserved_extends:
  assumes "is_board board" "is_board s"
  shows "preserved board s = extends board s"
  using assms
  by (auto simp: preserved_def extends_def is_board_def list_all_length list_all2_conv_all_nth)

lemma distinct_filter_map:
  "distinct xs \<Longrightarrow>
     distinct (filter P (map f xs)) =
       (\<forall>a \<in> set xs. \<forall>b \<in> set xs. a \<noteq> b \<and> P (f a) \<longrightarrow> f a \<noteq> f b)"
proof (induction xs)
  case Nil
  then show ?case by simp
next
  case (Cons c xs)
  then show ?case by (auto simp: image_iff)
qed

lemma no_repeats_units:
  "no_repeats board =
     ((\<forall>y<9. distinct (filter (\<lambda>n. n \<noteq> 0) (row_cells board y))) \<and>
      (\<forall>x<9. distinct (filter (\<lambda>n. n \<noteq> 0) (col_cells board x))) \<and>
      (\<forall>by<3. \<forall>bx<3. distinct (filter (\<lambda>n. n \<noteq> 0) (box_cells board (3 * by) (3 * bx)))))"
  unfolding no_repeats_def units_def list_all_append list.pred_map
  by (simp add: list_all_iff comp_def case_prod_beta Ball_def) blast

lemma rows_conflict_free:
  "(\<forall>y<9. distinct (filter (\<lambda>n. n \<noteq> 0) (row_cells board y))) =
     (\<forall>y<9. \<forall>x<9. \<forall>x'<9. board ! y ! x \<noteq> 0 \<and> x \<noteq> x' \<longrightarrow> board ! y ! x \<noteq> board ! y ! x')"
  unfolding row_cells_def
  by (simp add: distinct_filter_map atLeast0LessThan Ball_def) (safe, metis+)

lemma cols_conflict_free:
  "(\<forall>x<9. distinct (filter (\<lambda>n. n \<noteq> 0) (col_cells board x))) =
     (\<forall>x<9. \<forall>y<9. \<forall>y'<9. board ! y ! x \<noteq> 0 \<and> y \<noteq> y' \<longrightarrow> board ! y ! x \<noteq> board ! y' ! x)"
  unfolding col_cells_def
  by (simp add: distinct_filter_map atLeast0LessThan Ball_def) (safe, metis+)

lemma box_of_cell: "3 * (y div 3) + y mod 3 = (y::nat)"
  by simp

lemma box_offsets:
  "distinct (filter (\<lambda>n. n \<noteq> 0) (box_cells board (3 * by) (3 * bx))) =
     (\<forall>i<3. \<forall>j<3. \<forall>i'<3. \<forall>j'<3.
        (i \<noteq> i' \<or> j \<noteq> j') \<and> board ! (3 * by + j) ! (3 * bx + i) \<noteq> 0
          \<longrightarrow> board ! (3 * by + j) ! (3 * bx + i) \<noteq> board ! (3 * by + j') ! (3 * bx + i'))"
proof -
  have d: "distinct (List.product [0..<3] [0..<(3::nat)])"
    by (simp add: distinct_product)
  show ?thesis
    unfolding box_cells_def distinct_filter_map [OF d]
    by (simp add: atLeast0LessThan Ball_def mult.commute) (safe, metis+)
qed

lemma boxes_conflict_free:
  "(\<forall>by<3. \<forall>bx<3. distinct (filter (\<lambda>n. n \<noteq> 0) (box_cells board (3 * by) (3 * bx)))) =
     (\<forall>y<9. \<forall>x<9. \<forall>y'<9. \<forall>x'<9.
        board ! y ! x \<noteq> 0 \<and> (y \<noteq> y' \<or> x \<noteq> x') \<and> y div 3 = y' div 3 \<and> x div 3 = x' div 3
          \<longrightarrow> board ! y ! x \<noteq> board ! y' ! x')"
  (is "?boxes = ?cells")
proof
  assume off: ?boxes
  show ?cells
  proof (intro allI impI)
    fix y x y' x' :: nat
    assume r: "y < 9" "x < 9" "y' < 9" "x' < 9"
      and h: "board ! y ! x \<noteq> 0 \<and> (y \<noteq> y' \<or> x \<noteq> x') \<and> y div 3 = y' div 3 \<and> x div 3 = x' div 3"
    from r have b: "y div 3 < 3" "x div 3 < 3" by simp_all
    have m: "x mod 3 < 3" "y mod 3 < 3" "x' mod 3 < 3" "y' mod 3 < 3" by simp_all
    from h have ne: "x mod 3 \<noteq> x' mod 3 \<or> y mod 3 \<noteq> y' mod 3"
      by (metis box_of_cell)
    have same: "3 * (y div 3) + y' mod 3 = y'" "3 * (x div 3) + x' mod 3 = x'"
      using h by simp_all
    from off b have "distinct (filter (\<lambda>n. n \<noteq> 0) (box_cells board (3 * (y div 3)) (3 * (x div 3))))"
      by blast
    from this [unfolded box_offsets, rule_format, OF m(1) m(2) m(3) m(4),
        unfolded box_of_cell same] ne h
    show "board ! y ! x \<noteq> board ! y' ! x'"
      by blast
  qed
next
  assume cells: ?cells
  show ?boxes
    unfolding box_offsets
  proof (intro allI impI)
    fix "by" bx i j i' j' :: nat
    assume r: "by < 3" "bx < 3" "i < 3" "j < 3" "i' < 3" "j' < 3"
      and h: "(i \<noteq> i' \<or> j \<noteq> j') \<and> board ! (3 * by + j) ! (3 * bx + i) \<noteq> 0"
    from r have in9: "3 * by + j < 9" "3 * bx + i < 9" "3 * by + j' < 9" "3 * bx + i' < 9"
      by simp_all
    from r have box: "(3 * by + j) div 3 = (3 * by + j') div 3"
      "(3 * bx + i) div 3 = (3 * bx + i') div 3" by simp_all
    from h have ne: "3 * by + j \<noteq> 3 * by + j' \<or> 3 * bx + i \<noteq> 3 * bx + i'" by auto
    from cells [rule_format, OF in9] h ne box
    show "board ! (3 * by + j) ! (3 * bx + i) \<noteq> board ! (3 * by + j') ! (3 * bx + i')"
      by blast
  qed
qed

lemma no_repeats_conflict_free: "no_repeats board = conflict_free board"
proof -
  have "conflict_free board =
    ((\<forall>y<9. \<forall>x<9. \<forall>x'<9. board ! y ! x \<noteq> 0 \<and> x \<noteq> x' \<longrightarrow> board ! y ! x \<noteq> board ! y ! x') \<and>
     (\<forall>x<9. \<forall>y<9. \<forall>y'<9. board ! y ! x \<noteq> 0 \<and> y \<noteq> y' \<longrightarrow> board ! y ! x \<noteq> board ! y' ! x) \<and>
     (\<forall>y<9. \<forall>x<9. \<forall>y'<9. \<forall>x'<9.
        board ! y ! x \<noteq> 0 \<and> (y \<noteq> y' \<or> x \<noteq> x') \<and> y div 3 = y' div 3 \<and> x div 3 = x' div 3
          \<longrightarrow> board ! y ! x \<noteq> board ! y' ! x'))"
    (is "_ = (?rows \<and> ?cols \<and> ?boxes)")
  proof
    assume cf: "conflict_free board"
    have ?rows using cf unfolding conflict_free_def same_unit_def by blast
    moreover have ?cols using cf unfolding conflict_free_def same_unit_def by blast
    moreover have ?boxes using cf unfolding conflict_free_def same_unit_def by blast
    ultimately show "?rows \<and> ?cols \<and> ?boxes" by blast
  next
    assume u: "?rows \<and> ?cols \<and> ?boxes"
    show "conflict_free board"
      unfolding conflict_free_def same_unit_def
    proof (intro allI impI)
      fix y x y' x' :: nat
      assume r: "y < 9" "x < 9" "y' < 9" "x' < 9"
        and h: "board ! y ! x \<noteq> 0 \<and> (y \<noteq> y' \<or> x \<noteq> x') \<and>
          (y = y' \<or> x = x' \<or> y div 3 = y' div 3 \<and> x div 3 = x' div 3)"
      then consider "y = y'" "x \<noteq> x'" | "x = x'" "y \<noteq> y'"
        | "y div 3 = y' div 3 \<and> x div 3 = x' div 3" by blast
      then show "board ! y ! x \<noteq> board ! y' ! x'"
      proof cases
        case 1
        with u r h show ?thesis by blast
      next
        case 2
        with u r h show ?thesis by blast
      next
        case 3
        with u r h show ?thesis by blast
      qed
    qed
  qed
  then show ?thesis
    unfolding no_repeats_units rows_conflict_free cols_conflict_free boxes_conflict_free by simp
qed

section \<open>Facts about the generator\<close>

lemma remove_numbers_unfold:
  "remove_numbers board excluded w =
     (if count_nonzero board > clues w then
        remove_loop (if count_nonzero board = clues w + 1
                     then snd generator_depth else fst generator_depth)
          (nonzero_indices board) board excluded w
      else Inr (Some board, w))"
  by (simp add: remove_numbers.simps [of board excluded w] Let_def)

lemma remove_loop_Nil: "remove_loop depth [] sudoku excluded_nums w = Inr (None, w)"
  by (simp add: remove_loop.simps)

lemma remove_loop_step:
  assumes "indices \<noteq> []" "pop_random indices w = (c0, indices1, w1)"
    "skip_excluded c0 indices1 excluded_nums w1 = ((y, x), indices2, w2)"
  shows "remove_loop depth indices sudoku excluded_nums w =
     (if indices2 \<noteq> [] then
        (case cell sudoku y x of
           Inl e \<Rightarrow> Inl e
         | Inr n \<Rightarrow>
             (case set_cell sudoku y x 0 of
                Inl e \<Rightarrow> Inl e
              | Inr sudoku0 \<Rightarrow>
                  (case unique sudoku0 depth w2 of
                     Inl e \<Rightarrow> Inl e
                   | Inr (u, w3) \<Rightarrow>
                       (case (if u then remove_numbers sudoku0 excluded_nums w3
                              else Inr (None, w3)) of
                          Inl e \<Rightarrow> Inl e
                        | Inr (Some next_layer, w4) \<Rightarrow> Inr (Some next_layer, w4)
                        | Inr (None, w4) \<Rightarrow>
                            (if length (excluded_nums @ [(y, x)]) > clues w4 then Inr (None, w4)
                             else (case set_cell sudoku0 y x n of
                                     Inl e \<Rightarrow> Inl e
                                   | Inr sudoku_n \<Rightarrow>
                                       remove_loop depth indices2 sudoku_n
                                         (excluded_nums @ [(y, x)]) w4))))))
      else Inr (None, w2))"
  unfolding remove_loop.simps [of depth indices] Let_def
  using assms by (simp add: remove_loop_Nil)

lemma remove_loop_cases
  [case_names exhausted last cell_error set_error unique_error inner_error success cutoff
     restore_error continue]:
  obtains
    "indices = []" "remove_loop depth indices sudoku excluded_nums w = Inr (None, w)"
  | c0 indices1 w1 y x w2 where
      "indices \<noteq> []" "pop_random indices w = (c0, indices1, w1)"
      "skip_excluded c0 indices1 excluded_nums w1 = ((y, x), [], w2)"
      "remove_loop depth indices sudoku excluded_nums w = Inr (None, w2)"
  | c0 indices1 w1 y x indices2 w2 e where
      "indices \<noteq> []" "pop_random indices w = (c0, indices1, w1)"
      "skip_excluded c0 indices1 excluded_nums w1 = ((y, x), indices2, w2)" "indices2 \<noteq> []"
      "cell sudoku y x = Inl e"
      "remove_loop depth indices sudoku excluded_nums w = Inl e"
  | c0 indices1 w1 y x indices2 w2 n e where
      "indices \<noteq> []" "pop_random indices w = (c0, indices1, w1)"
      "skip_excluded c0 indices1 excluded_nums w1 = ((y, x), indices2, w2)" "indices2 \<noteq> []"
      "cell sudoku y x = Inr n" "set_cell sudoku y x 0 = Inl e"
      "remove_loop depth indices sudoku excluded_nums w = Inl e"
  | c0 indices1 w1 y x indices2 w2 n sudoku0 e where
      "indices \<noteq> []" "pop_random indices w = (c0, indices1, w1)"
      "skip_excluded c0 indices1 excluded_nums w1 = ((y, x), indices2, w2)" "indices2 \<noteq> []"
      "cell sudoku y x = Inr n" "set_cell sudoku y x 0 = Inr sudoku0"
      "unique sudoku0 depth w2 = Inl e"
      "remove_loop depth indices sudoku excluded_nums w = Inl e"
  | c0 indices1 w1 y x indices2 w2 n sudoku0 w3 e where
      "indices \<noteq> []" "pop_random indices w = (c0, indices1, w1)"
      "skip_excluded c0 indices1 excluded_nums w1 = ((y, x), indices2, w2)" "indices2 \<noteq> []"
      "cell sudoku y x = Inr n" "set_cell sudoku y x 0 = Inr sudoku0"
      "unique sudoku0 depth w2 = Inr (True, w3)"
      "remove_numbers sudoku0 excluded_nums w3 = Inl e"
      "remove_loop depth indices sudoku excluded_nums w = Inl e"
  | c0 indices1 w1 y x indices2 w2 n sudoku0 w3 next_layer w4 where
      "indices \<noteq> []" "pop_random indices w = (c0, indices1, w1)"
      "skip_excluded c0 indices1 excluded_nums w1 = ((y, x), indices2, w2)" "indices2 \<noteq> []"
      "cell sudoku y x = Inr n" "set_cell sudoku y x 0 = Inr sudoku0"
      "unique sudoku0 depth w2 = Inr (True, w3)"
      "remove_numbers sudoku0 excluded_nums w3 = Inr (Some next_layer, w4)"
      "remove_loop depth indices sudoku excluded_nums w = Inr (Some next_layer, w4)"
  | c0 indices1 w1 y x indices2 w2 n sudoku0 u w3 w4 where
      "indices \<noteq> []" "pop_random indices w = (c0, indices1, w1)"
      "skip_excluded c0 indices1 excluded_nums w1 = ((y, x), indices2, w2)" "indices2 \<noteq> []"
      "cell sudoku y x = Inr n" "set_cell sudoku y x 0 = Inr sudoku0"
      "unique sudoku0 depth w2 = Inr (u, w3)"
      "(if u then remove_numbers sudoku0 excluded_nums w3 else Inr (None, w3)) = Inr (None, w4)"
      "length (excluded_nums @ [(y, x)]) > clues w4"
      "remove_loop depth indices sudoku excluded_nums w = Inr (None, w4)"
  | c0 indices1 w1 y x indices2 w2 n sudoku0 u w3 w4 e where
      "indices \<noteq> []" "pop_random indices w = (c0, indices1, w1)"
      "skip_excluded c0 indices1 excluded_nums w1 = ((y, x), indices2, w2)" "indices2 \<noteq> []"
      "cell sudoku y x = Inr n" "set_cell sudoku y x 0 = Inr sudoku0"
      "unique sudoku0 depth w2 = Inr (u, w3)"
      "(if u then remove_numbers sudoku0 excluded_nums w3 else Inr (None, w3)) = Inr (None, w4)"
      "\<not> length (excluded_nums @ [(y, x)]) > clues w4"
      "set_cell sudoku0 y x n = Inl e"
      "remove_loop depth indices sudoku excluded_nums w = Inl e"
  | c0 indices1 w1 y x indices2 w2 n sudoku0 u w3 w4 sudoku_n where
      "indices \<noteq> []" "pop_random indices w = (c0, indices1, w1)"
      "skip_excluded c0 indices1 excluded_nums w1 = ((y, x), indices2, w2)" "indices2 \<noteq> []"
      "cell sudoku y x = Inr n" "set_cell sudoku y x 0 = Inr sudoku0"
      "unique sudoku0 depth w2 = Inr (u, w3)"
      "(if u then remove_numbers sudoku0 excluded_nums w3 else Inr (None, w3)) = Inr (None, w4)"
      "\<not> length (excluded_nums @ [(y, x)]) > clues w4"
      "set_cell sudoku0 y x n = Inr sudoku_n"
      "remove_loop depth indices sudoku excluded_nums w =
         remove_loop depth indices2 sudoku_n (excluded_nums @ [(y, x)]) w4"
proof (cases "indices = []")
  case True
  then show ?thesis using that(1) by (simp add: remove_loop_Nil)
next
  case ne: False
  obtain c0 indices1 w1 where pop: "pop_random indices w = (c0, indices1, w1)"
    by (cases "pop_random indices w")
  obtain y x indices2 w2 where
    skip: "skip_excluded c0 indices1 excluded_nums w1 = ((y, x), indices2, w2)"
    by (cases "skip_excluded c0 indices1 excluded_nums w1") auto
  note step = remove_loop_step [OF ne pop skip, of depth sudoku]
  show ?thesis
  proof (cases "indices2 = []")
    case True
    with step that(2) [OF ne pop] skip show ?thesis by simp
  next
    case more: False
    show ?thesis
    proof (cases "cell sudoku y x")
      case (Inl e)
      with step more that(3) [OF ne pop skip more] show ?thesis by simp
    next
      case n: (Inr n)
      show ?thesis
      proof (cases "set_cell sudoku y x 0")
        case (Inl e)
        with step more n that(4) [OF ne pop skip more n] show ?thesis by simp
      next
        case s0: (Inr sudoku0)
        show ?thesis
        proof (cases "unique sudoku0 depth w2")
          case (Inl e)
          with step more n s0 that(5) [OF ne pop skip more n s0] show ?thesis by simp
        next
          case (Inr uw)
          obtain u w3 where uw: "uw = (u, w3)" by (cases uw)
          with Inr have un: "unique sudoku0 depth w2 = Inr (u, w3)" by simp
          let ?inner = "if u then remove_numbers sudoku0 excluded_nums w3 else Inr (None, w3)"
          show ?thesis
          proof (cases ?inner)
            case (Inl e)
            then have u: "u" and rec: "remove_numbers sudoku0 excluded_nums w3 = Inl e"
              by (auto split: if_splits)
            from un u have un': "unique sudoku0 depth w2 = Inr (True, w3)" by simp
            from step more n s0 un' rec that(6) [OF ne pop skip more n s0 un' rec]
            show ?thesis by simp
          next
            case (Inr rw)
            obtain r w4 where rw: "rw = (r, w4)" by (cases rw)
            show ?thesis
            proof (cases r)
              case (Some next_layer)
              with Inr rw have u: "u"
                and rec: "remove_numbers sudoku0 excluded_nums w3 = Inr (Some next_layer, w4)"
                by (auto split: if_splits)
              from un u have un': "unique sudoku0 depth w2 = Inr (True, w3)" by simp
              from step more n s0 un' rec that(7) [OF ne pop skip more n s0 un' rec]
              show ?thesis by simp
            next
              case None
              with Inr rw have inner: "?inner = Inr (None, w4)" by simp
              show ?thesis
              proof (cases "length (excluded_nums @ [(y, x)]) > clues w4")
                case True
                with step more n s0 un inner that(8) [OF ne pop skip more n s0 un inner]
                show ?thesis by simp
              next
                case keep: False
                show ?thesis
                proof (cases "set_cell sudoku0 y x n")
                  case (Inl e)
                  with step more n s0 un inner keep
                    that(9) [OF ne pop skip more n s0 un inner keep]
                  show ?thesis by simp
                next
                  case (Inr sudoku_n)
                  with step more n s0 un inner keep
                    that(10) [OF ne pop skip more n s0 un inner keep]
                  show ?thesis by simp
                qed
              qed
            qed
          qed
        qed
      qed
    qed
  qed
qed

lemma remove_induct [case_names remove loop]:
  assumes "\<And>board excluded w.
      (clues w < count_nonzero board \<Longrightarrow>
         Q (if count_nonzero board = clues w + 1 then snd generator_depth else fst generator_depth)
           (nonzero_indices board) board excluded w) \<Longrightarrow>
      P board excluded w"
    and "\<And>depth indices sudoku excluded_nums w.
      (\<And>c0 indices1 w1 y x indices2 w2 n sudoku0 w3.
          indices \<noteq> [] \<Longrightarrow> pop_random indices w = (c0, indices1, w1) \<Longrightarrow>
          skip_excluded c0 indices1 excluded_nums w1 = ((y, x), indices2, w2) \<Longrightarrow>
          indices2 \<noteq> [] \<Longrightarrow> cell sudoku y x = Inr n \<Longrightarrow>
          set_cell sudoku y x 0 = Inr sudoku0 \<Longrightarrow>
          unique sudoku0 depth w2 = Inr (True, w3) \<Longrightarrow> P sudoku0 excluded_nums w3) \<Longrightarrow>
      (\<And>c0 indices1 w1 y x indices2 w2 n sudoku0 u w3 w4 sudoku_n.
          indices \<noteq> [] \<Longrightarrow> pop_random indices w = (c0, indices1, w1) \<Longrightarrow>
          skip_excluded c0 indices1 excluded_nums w1 = ((y, x), indices2, w2) \<Longrightarrow>
          indices2 \<noteq> [] \<Longrightarrow> cell sudoku y x = Inr n \<Longrightarrow>
          set_cell sudoku y x 0 = Inr sudoku0 \<Longrightarrow>
          unique sudoku0 depth w2 = Inr (u, w3) \<Longrightarrow>
          (if u then remove_numbers sudoku0 excluded_nums w3 else Inr (None, w3))
            = Inr (None, w4) \<Longrightarrow>
          \<not> length (excluded_nums @ [(y, x)]) > clues w4 \<Longrightarrow>
          set_cell sudoku0 y x n = Inr sudoku_n \<Longrightarrow>
          Q depth indices2 sudoku_n (excluded_nums @ [(y, x)]) w4) \<Longrightarrow>
      Q depth indices sudoku excluded_nums w"
  shows "P board excluded w" and "Q depth indices sudoku excluded_nums w"
proof (induction board excluded w and depth indices sudoku excluded_nums w
    rule: remove_numbers_remove_loop.induct)
  case (1 board excluded w)
  show ?case
    by (rule assms(1)) (rule 1, simp_all)
next
  case (2 depth indices sudoku excluded_nums w)
  show ?case
  proof (rule assms(2), goal_cases)
    case prems: (1 c0 indices1 w1 y x indices2 w2 n sudoku0 w3)
    show ?case
      by (rule "2.IH"(1) [OF prems(1) refl prems(2) [symmetric] refl refl prems(3) [symmetric]
            refl prems(4) refl prems(5) prems(6) prems(7) refl TrueI])
  next
    case prems: (2 c0 indices1 w1 y x indices2 w2 n sudoku0 u w3 w4 sudoku_n)
    show ?case
      by (rule "2.IH"(2) [OF prems(1) refl prems(2) [symmetric] refl refl prems(3) [symmetric]
            refl prems(4) refl prems(5) prems(6) prems(7) refl prems(8) refl refl refl
            prems(9) prems(10)])
  qed
qed

lemma skip_excluded_frame:
  "skip_excluded c indices excluded_nums w = (c', indices', w') \<Longrightarrow>
     clues w' = clues w \<and> solve_calls w' = solve_calls w \<and> solution w' = solution w"
proof (induction c indices excluded_nums w rule: skip_excluded.induct)
  case (1 c indices excluded_nums w)
  show ?case
  proof (cases "c \<in> set excluded_nums \<and> indices \<noteq> []")
    case True
    obtain c1 indices1 w1 where pop: "pop_random indices w = (c1, indices1, w1)"
      by (cases "pop_random indices w")
    from "1.prems" True pop have "skip_excluded c1 indices1 excluded_nums w1 = (c', indices', w')"
      by (simp add: skip_excluded.simps [of c])
    from "1.IH" [OF True pop [symmetric] refl refl this] pop_random_frame [OF pop]
    show ?thesis by simp
  next
    case False
    with "1.prems" show ?thesis by (auto simp: skip_excluded.simps [of c])
  qed
qed

lemma completes_zero:
  assumes "is_board sudoku" "y < 9" "x < 9" "completes s sudoku"
  shows "completes s (put sudoku y x 0)"
  using assms(4) unfolding completes_def extends_def
  by (auto simp: nth_put [OF assms(1-3)])

lemma all_filled_board:
  assumes "all_filled indices sudoku" "(y, x) \<in> set indices" "is_board sudoku"
  shows "y < 9" "x < 9" "sudoku ! y ! x \<noteq> 0"
  using assms by (auto simp: all_filled_def is_board_def list_all_length)

lemma count_nonzero_remove:
  assumes "is_board sudoku" "y < 9" "x < 9" "sudoku ! y ! x \<noteq> 0"
  shows "Suc (count_nonzero (put sudoku y x 0)) = count_nonzero sudoku"
proof -
  from assms have "y < length sudoku" "x < length (sudoku ! y)"
    by (simp_all add: is_board_def list_all_length)
  from count_nonzero_put [OF this, of 0] assms(4) show ?thesis by simp
qed

text \<open>
  On a board that has a completion the removal raises no error and leaves the clue
  target alone. A board it returns is a board with the same completion, and it holds
  exactly \<open>clues\<close> filled cells when the removal started with at least that many.
\<close>

lemma remove_numbers_result:
  shows "is_board board \<Longrightarrow> completes s board \<Longrightarrow>
           \<exists>r w'. remove_numbers board excluded w = Inr (r, w') \<and> clues w' = clues w \<and>
             (\<forall>p. r = Some p \<longrightarrow> is_board p \<and> completes s p \<and>
                (clues w \<le> count_nonzero board \<longrightarrow> count_nonzero p = clues w))"
    and "is_board sudoku \<Longrightarrow> completes s sudoku \<Longrightarrow> all_filled indices sudoku \<Longrightarrow>
           \<exists>r w'. remove_loop depth indices sudoku excluded_nums w = Inr (r, w') \<and>
             clues w' = clues w \<and>
             (\<forall>p. r = Some p \<longrightarrow> is_board p \<and> completes s p \<and>
                (clues w < count_nonzero sudoku \<longrightarrow> count_nonzero p = clues w))"
proof (induction board excluded w and depth indices sudoku excluded_nums w rule: remove_induct)
  case (remove board excluded w)
  show ?case
  proof (cases "clues w < count_nonzero board")
    case False
    with remove.prems show ?thesis by (simp add: remove_numbers_unfold)
  next
    case True
    have "all_filled (nonzero_indices board) board"
      by (simp add: all_filled_def nonzero_indices_set)
    from remove.IH [OF True remove.prems this] True show ?thesis
      by (simp add: remove_numbers_unfold)
  qed
next
  case (loop depth indices sudoku excluded_nums w)
  note b = loop.prems(1) and c = loop.prems(2) and f = loop.prems(3)
  show ?case
  proof (cases rule: remove_loop_cases [of indices depth sudoku excluded_nums w])
    case exhausted
    then show ?thesis by simp
  next
    case (last c0 indices1 w1 y x w2)
    with pop_random_frame(2) [OF last(2)] skip_excluded_frame [OF last(3)]
    show ?thesis by simp
  next
    case (cell_error c0 indices1 w1 y x indices2 w2 e)
    from all_filled_board [OF f popped_candidate(1) [OF cell_error(1-3)] b]
      is_board_cell [OF b, of y x] cell_error(5)
    show ?thesis by simp
  next
    case (set_error c0 indices1 w1 y x indices2 w2 n e)
    from all_filled_board [OF f popped_candidate(1) [OF set_error(1-3)] b]
      is_board_set_cell(1) [OF b, of y x 0] set_error(6)
    show ?thesis by simp
  next
    case (unique_error c0 indices1 w1 y x indices2 w2 n sudoku0 e)
    note r = all_filled_board [OF f popped_candidate(1) [OF unique_error(1-3)] b]
    from unique_error(6) is_board_set_cell [OF b r(1,2), of 0]
    have s0: "sudoku0 = put sudoku y x 0" "is_board sudoku0" by simp_all
    from unique_no_error [OF s0(2) completes_zero [OF b r(1,2) c, folded s0(1)], of depth w2]
      unique_error(7)
    show ?thesis by simp
  next
    case (inner_error c0 indices1 w1 y x indices2 w2 n sudoku0 w3 e)
    note r = all_filled_board [OF f popped_candidate(1) [OF inner_error(1-3)] b]
    from inner_error(6) is_board_set_cell [OF b r(1,2), of 0]
    have s0: "sudoku0 = put sudoku y x 0" "is_board sudoku0" by simp_all
    from loop.IH(1) [OF inner_error(1-7) s0(2) completes_zero [OF b r(1,2) c, folded s0(1)]]
      inner_error(8)
    show ?thesis by simp
  next
    case (success c0 indices1 w1 y x indices2 w2 n sudoku0 w3 next_layer w4)
    note r = all_filled_board [OF f popped_candidate(1) [OF success(1-3)] b]
    from success(6) is_board_set_cell [OF b r(1,2), of 0]
    have s0: "sudoku0 = put sudoku y x 0" "is_board sudoku0" by simp_all
    have c0: "completes s sudoku0" using completes_zero [OF b r(1,2) c] by (simp add: s0)
    from unique_no_error [OF s0(2) c0, of depth w2] success(7)
      pop_random_frame(2) [OF success(2)] skip_excluded_frame [OF success(3)]
    have cl: "clues w3 = clues w" by simp
    from count_nonzero_remove [OF b r] have cnt: "Suc (count_nonzero sudoku0) = count_nonzero sudoku"
      by (simp add: s0)
    from loop.IH(1) [OF success(1-7) s0(2) c0] success(8)
    have "clues w4 = clues w3" "is_board next_layer" "completes s next_layer"
      "clues w3 \<le> count_nonzero sudoku0 \<longrightarrow> count_nonzero next_layer = clues w3"
      by simp_all
    with cl cnt success(9) show ?thesis by auto
  next
    case (cutoff c0 indices1 w1 y x indices2 w2 n sudoku0 u w3 w4)
    note r = all_filled_board [OF f popped_candidate(1) [OF cutoff(1-3)] b]
    from cutoff(6) is_board_set_cell [OF b r(1,2), of 0]
    have s0: "sudoku0 = put sudoku y x 0" "is_board sudoku0" by simp_all
    have c0: "completes s sudoku0" using completes_zero [OF b r(1,2) c] by (simp add: s0)
    from unique_no_error [OF s0(2) c0, of depth w2] cutoff(7)
      pop_random_frame(2) [OF cutoff(2)] skip_excluded_frame [OF cutoff(3)]
    have cl: "clues w3 = clues w" by simp
    have "clues w4 = clues w3"
    proof (cases u)
      case True
      with cutoff(7) have un: "unique sudoku0 depth w2 = Inr (True, w3)" by simp
      from loop.IH(1) [OF cutoff(1-6) un s0(2) c0] cutoff(8) True show ?thesis by simp
    next
      case False
      with cutoff(8) show ?thesis by simp
    qed
    with cl cutoff(10) show ?thesis by simp
  next
    case (restore_error c0 indices1 w1 y x indices2 w2 n sudoku0 u w3 w4 e)
    note r = all_filled_board [OF f popped_candidate(1) [OF restore_error(1-3)] b]
    from restore_error(6) is_board_set_cell [OF b r(1,2), of 0]
    have s0: "sudoku0 = put sudoku y x 0" "is_board sudoku0" by simp_all
    from is_board_set_cell(1) [OF s0(2) r(1,2), of n] restore_error(10)
    show ?thesis by simp
  next
    case (continue c0 indices1 w1 y x indices2 w2 n sudoku0 u w3 w4 sudoku_n)
    note r = all_filled_board [OF f popped_candidate(1) [OF continue(1-3)] b]
    from continue(6) is_board_set_cell [OF b r(1,2), of 0]
    have s0: "sudoku0 = put sudoku y x 0" "is_board sudoku0" by simp_all
    have c0: "completes s sudoku0" using completes_zero [OF b r(1,2) c] by (simp add: s0)
    from unique_no_error [OF s0(2) c0, of depth w2] continue(7)
      pop_random_frame(2) [OF continue(2)] skip_excluded_frame [OF continue(3)]
    have cl: "clues w3 = clues w" by simp
    have cl4: "clues w4 = clues w3"
    proof (cases u)
      case True
      with continue(7) have un: "unique sudoku0 depth w2 = Inr (True, w3)" by simp
      from loop.IH(1) [OF continue(1-6) un s0(2) c0] continue(8) True show ?thesis by simp
    next
      case False
      with continue(8) show ?thesis by simp
    qed
    have same: "sudoku_n = sudoku"
      by (rule cell_set_cell_restore [OF continue(5,6,10)])
    have f2: "all_filled indices2 sudoku"
      by (rule all_filled_subset [OF f popped_candidate(2) [OF continue(1-3)]])
    from loop.IH(2) [OF continue(1-10) b [folded same] c [folded same] f2 [folded same]]
      continue(11) cl cl4 same
    show ?thesis by simp
  qed
qed

text \<open>
  The loop of \<open>remove_numbers\<close> pops a coordinate and then tests whether coordinates
  remain, so the coordinate popped last is dropped without being tried, whether it is
  blacklisted or not.
\<close>

lemma last_candidate_dropped:
  "\<exists>w'. remove_loop depth [c] sudoku excluded_nums w = Inr (None, w') \<and>
         solve_calls w' = solve_calls w"
proof -
  obtain c0 indices1 w1 where pop: "pop_random [c] w = (c0, indices1, w1)"
    by (cases "pop_random [c] w")
  from pop_random_facts(3) [OF _ pop] have empty: "indices1 = []" by simp
  obtain y x where c0: "c0 = (y, x)" by (cases c0)
  have skip: "skip_excluded c0 indices1 excluded_nums w1 = ((y, x), [], w1)"
    by (simp add: empty c0 skip_excluded.simps)
  from remove_loop_step [OF _ pop skip, of depth sudoku] pop_random_frame(5) [OF pop]
  show ?thesis by simp
qed

section \<open>Facts about generation\<close>

lemma zeros_cell: "y < 9 \<Longrightarrow> x < 9 \<Longrightarrow> zeros ! y ! x = 0"
  by (simp add: zeros_def)

lemma zeros_board: "is_board zeros"
  by (simp add: zeros_def is_board_def list_all_length)

lemma zeros_valid: "digits zeros" "conflict_free zeros"
  by (simp_all add: digits_def conflict_free_def zeros_cell)

lemma zeros_completion: "completes example_solution zeros"
proof -
  have "is_board example_solution" "cells_in 1 9 example_solution" "no_repeats example_solution"
    by code_simp+
  then show ?thesis
    by (simp add: completes_def cells_in_solution no_repeats_conflict_free extends_def zeros_cell)
qed

lemma count_nonzero_filled:
  assumes "is_board board" "filled board"
  shows "count_nonzero board = 81"
proof -
  from assms have "populated board" by (simp add: populated_filled)
  then have "\<forall>n \<in> set (concat board). n \<noteq> 0"
    by (auto simp: populated_def list_all_iff)
  then have "filter (\<lambda>n. n \<noteq> 0) (concat board) = concat board" by simp
  moreover have "map length board = replicate 9 9"
    using assms(1) by (auto simp: is_board_def list_all_length intro!: nth_equalityI)
  ultimately show ?thesis
    by (simp add: count_nonzero_def length_concat sum_list_replicate)
qed

text \<open>The seed solve on the empty grid always yields a complete valid grid.\<close>

lemma seed_solution:
  "\<exists>w' b. init_solve zeros False w = Inr w' \<and> solution w' = Some b \<and> is_board b \<and>
           completes b b \<and> count_nonzero b = 81 \<and> clues w' = clues w"
proof -
  from init_solve_complete [OF zeros_board zeros_completion, of w]
  obtain w' b where run: "init_solve zeros False w = Inr w'" and b: "solution w' = Some b"
    by blast
  let ?w = "w\<lparr>solution := None, solve_calls := Suc (solve_calls w)\<rparr>"
  from run have "solve 0 zeros ?w = Inr w'" by (simp add: init_solve_False)
  from solve_sound(1) [OF zeros_board _ this b] zeros_valid
  have good: "is_board b" "filled b" "digits b" "conflict_free b" by simp_all
  then have "completes b b" by (simp add: completes_def extends_def)
  with run b good count_nonzero_filled [OF good(1,2)] init_solve_frame(1) [OF run]
  show ?thesis by blast
qed

text \<open>
  On a board that has a completion the deepest level is the number of its empty cells;
  on the empty grid it is 81, so that 82 activations of \<open>solve\<close> are nested there, the
  outermost one included.
\<close>

lemma solvable_depth:
  assumes "is_board board" "completes s board"
  shows "\<exists>w'. init_solve board False (w\<lparr>deepest := 0\<rparr>) = Inr w' \<and>
           deepest w' = count_value 0 board"
proof -
  let ?w = "w\<lparr>deepest := 0, solution := None, solve_calls := Suc (solve_calls w)\<rparr>"
  from init_solve_complete [OF assms, of "w\<lparr>deepest := 0\<rparr>"]
  obtain w' r where run: "solve 0 board ?w = Inr w'" and r: "solution w' = Some r"
    by (auto simp: init_solve_False)
  from solve_reaches(1) [OF run] r have "count_value 0 board \<le> deepest w'" by simp
  moreover from solve_depth(1) [OF run] have "deepest w' \<le> count_value 0 board" by simp
  ultimately show ?thesis using run by (simp add: init_solve_False)
qed

lemma empty_grid_depth:
  "\<exists>w'. init_solve zeros False (w\<lparr>deepest := 0\<rparr>) = Inr w' \<and> deepest w' = 81"
proof -
  have "count_value 0 zeros = 81" by code_simp
  with solvable_depth [OF zeros_board zeros_completion, of w] show ?thesis by simp
qed

lemma draw_stored_puzzle:
  "(case draw_puzzle r r of Inl e \<Rightarrow> Inl e | Inr u \<Rightarrow> Inr (w\<lparr>puzzle := r\<rparr>)) =
     (case r of None \<Rightarrow> Inl TypeError | Some p \<Rightarrow> Inr (w\<lparr>puzzle := Some p\<rparr>))"
  by (cases r) (simp_all add: draw_puzzle_def)

lemma generate_unfold:
  "generate difficulty w =
     (case init_solve zeros False (pick_clues difficulty w) of
        Inl e \<Rightarrow> Inl e
      | Inr w4 \<Rightarrow>
          (case solution w4 of
             None \<Rightarrow> Inl AttributeError
           | Some board' \<Rightarrow>
               (case remove_numbers board' [] w4 of
                  Inl e \<Rightarrow> Inl e
                | Inr (board'', w5) \<Rightarrow>
                    (case board'' of
                       None \<Rightarrow> Inl TypeError
                     | Some p \<Rightarrow> Inr (w5\<lparr>puzzle := Some p\<rparr>)))))"
  unfolding generate_def pick_clues_def Let_def draw_stored_puzzle by (rule refl)


lemma pick_clues_other:
  "difficulty \<notin> {''easy'', ''medium'', ''hard''} \<Longrightarrow> pick_clues difficulty w = w"
  by (simp add: pick_clues_def)


text \<open>
  The seed solve and the removal of \<open>generate\<close> raise nothing and leave the clue target
  that the tests of the difficulty left. A puzzle that the removal returns is stored,
  and it has exactly that many filled cells; when the removal returns None, the drawing
  raises TypeError.
\<close>

lemma generate_result:
  "\<exists>w4 b r w5.
      init_solve zeros False (pick_clues difficulty w) = Inr w4 \<and> solution w4 = Some b \<and>
      clues w4 = clues (pick_clues difficulty w) \<and>
      remove_numbers b [] w4 = Inr (r, w5) \<and> clues w5 = clues w4 \<and>
      generate difficulty w =
        (case r of None \<Rightarrow> Inl TypeError | Some p \<Rightarrow> Inr (w5\<lparr>puzzle := Some p\<rparr>)) \<and>
      (\<forall>p. r = Some p \<longrightarrow> is_board p \<and>
         (clues w4 \<le> 81 \<longrightarrow> count_nonzero p = clues w4))"
proof -
  from seed_solution [of "pick_clues difficulty w"]
  obtain w4 b where seed: "init_solve zeros False (pick_clues difficulty w) = Inr w4"
    "solution w4 = Some b" "is_board b" "completes b b" "count_nonzero b = 81"
    "clues w4 = clues (pick_clues difficulty w)" by blast
  from remove_numbers_result(1) [OF seed(3,4), of "[]" w4]
  obtain r w5 where rem: "remove_numbers b [] w4 = Inr (r, w5)" "clues w5 = clues w4"
    "\<forall>p. r = Some p \<longrightarrow> is_board p \<and> completes b p \<and>
       (clues w4 \<le> count_nonzero b \<longrightarrow> count_nonzero p = clues w4)" by blast
  have "generate difficulty w =
      (case r of None \<Rightarrow> Inl TypeError | Some p \<Rightarrow> Inr (w5\<lparr>puzzle := Some p\<rparr>))"
    using seed(1,2) rem(1) by (simp add: generate_unfold)
  with seed rem show ?thesis by auto
qed

section \<open>A run in which generation succeeds\<close>

text \<open>
  The outcome of a search depends on the state only through the random draws and the
  solution slot. Hence, when every draw is 0, all solves of one grid give one solution,
  the uniqueness test always answers True, and the removal never backtracks.
\<close>

lemma pop_random_same_draws:
  assumes "same_draws w v" "pop_random xs w = (a, rest, w1)"
  shows "\<exists>v1. pop_random xs v = (a, rest, v1) \<and> same_draws w1 v1"
  using assms
  by (auto simp: same_draws_def pop_random_def randrange_def split: list.splits)

lemma solve_same_draws:
  shows "same_draws w v \<Longrightarrow> same_result (solve level board w) (solve level' board v)"
    and "same_draws w v \<Longrightarrow>
           same_result (try_numbers level y x numbers sudoku w)
                       (try_numbers level' y x numbers sudoku v)"
proof (induction level board w and level y x numbers sudoku w arbitrary: v level' and v level'
    rule: solve_induct)
  case (solve level board w)
  show ?case
  proof (cases "first_zero board")
    case None
    with solve.prems show ?thesis
      by (simp add: solve_unfold same_result_def same_draws_def)
  next
    case (Some c)
    obtain y x where c: "c = (y, x)" by (cases c)
    from solve.prems
    have "same_draws (w\<lparr>deepest := max (deepest w) level\<rparr>) (v\<lparr>deepest := max (deepest v) level'\<rparr>)"
      by (simp add: same_draws_def)
    from solve.IH [OF Some [unfolded c] this, of level'] Some c show ?thesis
      by (simp add: solve_unfold)
  qed
next
  case (loop level y x numbers sudoku w)
  show ?case
  proof (cases rule: try_numbers_cases [of numbers level y x sudoku w])
    case empty
    with loop.prems show ?thesis by (simp add: try_numbers_Nil same_result_def)
  next
    case (found num numbers' w1)
    from pop_random_same_draws [OF loop.prems found(2)]
    obtain v1 where v1: "pop_random numbers v = (num, numbers', v1)" "same_draws w1 v1" by blast
    from v1(2) found(3) have "solution v1 \<noteq> None" by (simp add: same_draws_def)
    with try_numbers_step [OF found(1) v1(1), of level' y x sudoku]
    have "try_numbers level' y x numbers sudoku v = Inr v1" by simp
    with found(4) v1(2) show ?thesis by (simp add: same_result_def)
  next
    case (place_error num numbers' w1 e)
    from pop_random_same_draws [OF loop.prems place_error(2)]
    obtain v1 where v1: "pop_random numbers v = (num, numbers', v1)" "same_draws w1 v1" by blast
    from v1(2) place_error(3) have "solution v1 = None" by (simp add: same_draws_def)
    with place_error(4) try_numbers_step [OF place_error(1) v1(1), of level' y x sudoku]
    have "try_numbers level' y x numbers sudoku v = Inl e" by simp
    with place_error(5) show ?thesis by (simp add: same_result_def)
  next
    case (skip num numbers' w1)
    from pop_random_same_draws [OF loop.prems skip(2)]
    obtain v1 where v1: "pop_random numbers v = (num, numbers', v1)" "same_draws w1 v1" by blast
    from v1(2) skip(3) have "solution v1 = None" by (simp add: same_draws_def)
    with skip(4) try_numbers_step [OF skip(1) v1(1), of level' y x sudoku]
    have "try_numbers level' y x numbers sudoku v = try_numbers level' y x numbers' sudoku v1"
      by simp
    with loop.IH(3) [OF skip(1-4) v1(2), of level'] skip(5) show ?thesis by simp
  next
    case (set_error num numbers' w1 e)
    from pop_random_same_draws [OF loop.prems set_error(2)]
    obtain v1 where v1: "pop_random numbers v = (num, numbers', v1)" "same_draws w1 v1" by blast
    from v1(2) set_error(3) have "solution v1 = None" by (simp add: same_draws_def)
    with set_error(4,5) try_numbers_step [OF set_error(1) v1(1), of level' y x sudoku]
    have "try_numbers level' y x numbers sudoku v = Inl e" by simp
    with set_error(6) show ?thesis by (simp add: same_result_def)
  next
    case (solve_error num numbers' w1 sudoku' e)
    from pop_random_same_draws [OF loop.prems solve_error(2)]
    obtain v1 where v1: "pop_random numbers v = (num, numbers', v1)" "same_draws w1 v1" by blast
    from v1(2) solve_error(3) have none: "solution v1 = None" by (simp add: same_draws_def)
    from loop.IH(1) [OF solve_error(1-5) v1(2), of "Suc level'"] solve_error(6)
    have "solve (Suc level') sudoku' v1 = Inl e" by (simp add: same_result_def)
    with none solve_error(4,5) try_numbers_step [OF solve_error(1) v1(1), of level' y x sudoku]
    have "try_numbers level' y x numbers sudoku v = Inl e" by simp
    with solve_error(7) show ?thesis by (simp add: same_result_def)
  next
    case (recurse num numbers' w1 sudoku' w2)
    from pop_random_same_draws [OF loop.prems recurse(2)]
    obtain v1 where v1: "pop_random numbers v = (num, numbers', v1)" "same_draws w1 v1" by blast
    from v1(2) recurse(3) have none: "solution v1 = None" by (simp add: same_draws_def)
    from loop.IH(1) [OF recurse(1-5) v1(2), of "Suc level'"] recurse(6)
    obtain v2 where v2: "solve (Suc level') sudoku' v1 = Inr v2" "same_draws w2 v2"
      by (auto simp: same_result_def split: sum.splits)
    with none recurse(4,5) try_numbers_step [OF recurse(1) v1(1), of level' y x sudoku]
    have "try_numbers level' y x numbers sudoku v = try_numbers level' y x numbers' sudoku' v2"
      by simp
    with loop.IH(2) [OF recurse(1-6) v2(2), of level'] recurse(7) show ?thesis by simp
  qed
qed

lemma pop_random_no_draws:
  assumes "rng w = []" "xs \<noteq> []"
  shows "pop_random xs w = (hd xs, tl xs, w)"
proof -
  from assms(2) obtain a rest where xs: "xs = a # rest" by (cases xs) auto
  from assms(1) show ?thesis
    by (simp add: pop_random_def randrange_def xs)
qed

lemma solve_no_draws:
  shows "rng w = [] \<Longrightarrow> solve level board w = Inr w' \<Longrightarrow> rng w' = []"
    and "rng w = [] \<Longrightarrow> try_numbers level y x numbers sudoku w = Inr w' \<Longrightarrow> rng w' = []"
proof (induction level board w and level y x numbers sudoku w arbitrary: w' and w'
    rule: solve_induct)
  case (solve level board w)
  show ?case
  proof (cases "first_zero board")
    case None
    with solve.prems show ?thesis by (auto simp: solve_unfold)
  next
    case (Some c)
    obtain y x where c: "c = (y, x)" by (cases c)
    from solve.prems Some c
    have "try_numbers level y x [1..9] board (w\<lparr>deepest := max (deepest w) level\<rparr>) = Inr w'"
      by (simp add: solve_unfold)
    from solve.IH [OF Some [unfolded c] _ this] solve.prems(1) show ?thesis by simp
  qed
next
  case (loop level y x numbers sudoku w)
  have same: "w1 = w" if "numbers \<noteq> []" "pop_random numbers w = (num, numbers', w1)"
    for num numbers' w1
    using pop_random_no_draws [OF loop.prems(1) that(1)] that(2) by simp
  show ?case
  proof (cases rule: try_numbers_cases [of numbers level y x sudoku w])
    case empty
    with loop.prems show ?thesis by simp
  next
    case (found num numbers' w1)
    with loop.prems same [OF found(1,2)] show ?thesis by simp
  next
    case (place_error num numbers' w1 e)
    with loop.prems show ?thesis by simp
  next
    case (skip num numbers' w1)
    with loop.prems have "try_numbers level y x numbers' sudoku w1 = Inr w'" by simp
    from loop.IH(3) [OF skip(1-4) _ this] same [OF skip(1,2)] loop.prems(1)
    show ?thesis by simp
  next
    case (set_error num numbers' w1 e)
    with loop.prems show ?thesis by simp
  next
    case (solve_error num numbers' w1 sudoku' e)
    with loop.prems show ?thesis by simp
  next
    case (recurse num numbers' w1 sudoku' w2)
    with loop.prems have run: "try_numbers level y x numbers' sudoku' w2 = Inr w'" by simp
    from loop.IH(1) [OF recurse(1-5) _ recurse(6)] same [OF recurse(1,2)] loop.prems(1)
    have "rng w2 = []" by simp
    from loop.IH(2) [OF recurse(1-6) this run] show ?thesis .
  qed
qed

lemma unique_loop_no_draws:
  assumes first: "init_solve board False w = Inr w1" "solution w1 = Some ref" "is_board ref"
    and w: "rng w = []" and v: "rng v = []"
  shows "\<exists>v'. unique_loop board (Some ref) n v = Inr (True, v') \<and> rng v' = [] \<and>
           clues v' = clues v"
  using v
proof (induction n arbitrary: v)
  case 0
  then show ?case by simp
next
  case (Suc n)
  let ?w = "w\<lparr>solution := None, solve_calls := Suc (solve_calls w)\<rparr>"
  let ?v = "v\<lparr>solution := None, solve_calls := Suc (solve_calls v)\<rparr>"
  from w Suc.prems have "same_draws ?w ?v" by (simp add: same_draws_def)
  from solve_same_draws(1) [OF this, of 0 board 0] first(1)
  obtain v1 where v1: "solve 0 board ?v = Inr v1" "same_draws w1 v1"
    by (auto simp: init_solve_False same_result_def split: sum.splits)
  then have run: "init_solve board False v = Inr v1" by (simp add: init_solve_False)
  from v1(2) first(2) have sol: "solution v1 = Some ref" by (simp add: same_draws_def)
  from solve_no_draws(1) [OF _ v1(1)] Suc.prems have "rng v1 = []" by simp
  from Suc.IH [OF this] obtain v' where
    rest: "unique_loop board (Some ref) n v1 = Inr (True, v')" "rng v' = []" "clues v' = clues v1"
    by blast
  from run sol differs_is_board [OF first(3) first(3)] rest init_solve_frame(1) [OF run]
  show ?case by simp
qed

lemma unique_no_draws:
  assumes "is_board board" "completes s board" "rng w = []"
  shows "\<exists>w'. unique board depth w = Inr (True, w') \<and> rng w' = [] \<and> clues w' = clues w"
proof -
  from init_solve_complete [OF assms(1,2), of w]
  obtain w1 ref where first: "init_solve board False w = Inr w1" "solution w1 = Some ref"
    "is_board ref" by blast
  from solve_no_draws(1) [OF _ first(1) [unfolded init_solve_False]] assms(3)
  have "rng w1 = []" by simp
  from unique_loop_no_draws [OF first assms(3) this, of depth] first(1,2)
    init_solve_frame(1) [OF first(1)]
  show ?thesis by (auto simp: unique_def)
qed

lemma ndenumerate_values: "map snd (ndenumerate board) = concat board"
proof -
  have "map snd (ndenumerate board) =
      concat (map (\<lambda>y. map (\<lambda>x. board ! y ! x) [0..<length (board ! y)]) [0..<length board])"
    by (simp add: ndenumerate_def map_concat comp_def)
  also have "\<dots> = concat (map (\<lambda>y. board ! y) [0..<length board])"
    by (simp add: map_nth)
  also have "\<dots> = concat board" by (simp add: map_nth)
  finally show ?thesis .
qed

lemma length_nonzero_indices: "length (nonzero_indices board) = count_nonzero board"
proof -
  have "length (nonzero_indices board) =
      length (filter ((\<lambda>n. n \<noteq> 0) \<circ> snd) (ndenumerate board))"
    by (simp add: nonzero_indices_def comp_def case_prod_unfold)
  also have "\<dots> = length (filter (\<lambda>n. n \<noteq> 0) (map snd (ndenumerate board)))"
    by (simp add: filter_map)
  finally show ?thesis by (simp add: ndenumerate_values count_nonzero_def)
qed

lemma remove_numbers_no_draws:
  assumes "is_board board" "completes s board" "rng w = []"
    and "1 \<le> clues w" "clues w \<le> count_nonzero board"
  shows "\<exists>p w'. remove_numbers board [] w = Inr (Some p, w')"
  using assms
proof (induction "count_nonzero board - clues w" arbitrary: board w)
  case 0
  then show ?case by (simp add: remove_numbers_unfold)
next
  case (Suc n)
  let ?depth = "if count_nonzero board = clues w + 1 then snd generator_depth
    else fst generator_depth"
  let ?indices = "nonzero_indices board"
  from Suc.hyps(2) have more: "clues w < count_nonzero board" by simp
  with Suc.prems(4) have "2 \<le> length ?indices" by (simp add: length_nonzero_indices)
  then obtain c rest where idx: "?indices = c # rest" "rest \<noteq> []"
    by (cases ?indices; cases "tl ?indices") auto
  obtain y x where c: "c = (y, x)" by (cases c)
  have pop: "pop_random ?indices w = ((y, x), rest, w)"
    using pop_random_no_draws [OF Suc.prems(3), of ?indices] idx c by simp
  have skip: "skip_excluded (y, x) rest [] w = ((y, x), rest, w)"
    by (simp add: skip_excluded.simps)
  have "(y, x) \<in> set ?indices" using idx c by simp
  then have r: "y < 9" "x < 9" "board ! y ! x \<noteq> 0"
    using Suc.prems(1) by (auto simp: nonzero_indices_set is_board_def list_all_length)
  let ?b0 = "put board y x 0"
  have b0: "is_board ?b0" "completes s ?b0"
    using is_board_set_cell(2) [OF Suc.prems(1) r(1,2)]
      completes_zero [OF Suc.prems(1) r(1,2) Suc.prems(2)] by simp_all
  from unique_no_draws [OF b0 Suc.prems(3), of ?depth]
  obtain w3 where u: "unique ?b0 ?depth w = Inr (True, w3)" "rng w3 = []" "clues w3 = clues w"
    by blast
  from count_nonzero_remove [OF Suc.prems(1) r] have cnt: "Suc (count_nonzero ?b0) = count_nonzero board" .
  have "n = count_nonzero ?b0 - clues w3" using Suc.hyps(2) cnt u(3) by simp
  moreover have "1 \<le> clues w3" "clues w3 \<le> count_nonzero ?b0"
    using Suc.prems(4) more cnt u(3) by simp_all
  ultimately obtain p w4 where rec: "remove_numbers ?b0 [] w3 = Inr (Some p, w4)"
    using Suc.hyps(1) [OF _ b0 u(2)] by blast
  have "remove_loop ?depth ?indices board [] w = Inr (Some p, w4)"
    using remove_loop_step [OF _ pop skip, of ?depth board] idx
      is_board_cell [OF Suc.prems(1) r(1,2)] is_board_set_cell(1) [OF Suc.prems(1) r(1,2), of 0]
      u(1) rec
    by simp
  with more show ?case by (simp add: remove_numbers_unfold)
qed

lemma generate_succeeds:
  assumes pick: "rng (pick_clues difficulty w) = []" "1 \<le> clues (pick_clues difficulty w)"
    "clues (pick_clues difficulty w) \<le> 81"
  shows "\<exists>w' p. generate difficulty w = Inr w' \<and> puzzle w' = Some p"
proof -
  let ?w = "pick_clues difficulty w"
  from seed_solution [of ?w]
  obtain w4 b where seed: "init_solve zeros False ?w = Inr w4" "solution w4 = Some b"
    "is_board b" "completes b b" "count_nonzero b = 81" "clues w4 = clues ?w" by blast
  from solve_no_draws(1) [OF _ seed(1) [unfolded init_solve_False]] pick(1)
  have "rng w4 = []" by simp
  from remove_numbers_no_draws [OF seed(3,4) this] seed(5,6) pick(2,3)
  obtain p w5 where "remove_numbers b [] w4 = Inr (Some p, w5)" by auto
  with seed(1,2) show ?thesis by (simp add: generate_unfold)
qed


text \<open>
  With the clue target 0 the removal never succeeds on a board with a filled cell: where
  one filled cell is left it is popped last and dropped, and everywhere else the first
  failure makes the blacklist longer than the target.
\<close>

lemma remove_numbers_without_target:
  shows "is_board board \<Longrightarrow> completes s board \<Longrightarrow> clues w = 0 \<Longrightarrow>
           1 \<le> count_nonzero board \<Longrightarrow>
           \<exists>w'. remove_numbers board excluded w = Inr (None, w')"
    and "is_board sudoku \<Longrightarrow> completes s sudoku \<Longrightarrow> clues w = 0 \<Longrightarrow>
           all_filled indices sudoku \<Longrightarrow> length indices \<le> count_nonzero sudoku \<Longrightarrow>
           \<exists>w'. remove_loop depth indices sudoku excluded_nums w = Inr (None, w')"
proof (induction board excluded w and depth indices sudoku excluded_nums w rule: remove_induct)
  case (remove board excluded w)
  from remove.prems have more: "clues w < count_nonzero board" by simp
  have "all_filled (nonzero_indices board) board"
    by (simp add: all_filled_def nonzero_indices_set)
  from remove.IH [OF more remove.prems(1-3) this] more show ?case
    by (simp add: remove_numbers_unfold length_nonzero_indices)
next
  case (loop depth indices sudoku excluded_nums w)
  note b = loop.prems(1) and c = loop.prems(2) and f = loop.prems(4)
  from remove_numbers_result(2) [OF b c f, of depth excluded_nums w]
  obtain r0 w0 where ok: "remove_loop depth indices sudoku excluded_nums w = Inr (r0, w0)"
    by blast
  show ?case
  proof (cases rule: remove_loop_cases [of indices depth sudoku excluded_nums w])
    case exhausted
    then show ?thesis by simp
  next
    case (last c0 indices1 w1 y x w2)
    then show ?thesis by simp
  next
    case (cell_error c0 indices1 w1 y x indices2 w2 e)
    with ok show ?thesis by simp
  next
    case (set_error c0 indices1 w1 y x indices2 w2 n e)
    with ok show ?thesis by simp
  next
    case (unique_error c0 indices1 w1 y x indices2 w2 n sudoku0 e)
    with ok show ?thesis by simp
  next
    case (inner_error c0 indices1 w1 y x indices2 w2 n sudoku0 w3 e)
    with ok show ?thesis by simp
  next
    case (success c0 indices1 w1 y x indices2 w2 n sudoku0 w3 next_layer w4)
    note r = all_filled_board [OF f popped_candidate(1) [OF success(1-3)] b]
    from success(6) is_board_set_cell [OF b r(1,2), of 0]
    have s0: "sudoku0 = put sudoku y x 0" "is_board sudoku0" by simp_all
    have c0: "completes s sudoku0" using completes_zero [OF b r(1,2) c] by (simp add: s0)
    from unique_no_error [OF s0(2) c0, of depth w2] success(7)
      pop_random_frame(2) [OF success(2)] skip_excluded_frame [OF success(3)] loop.prems(3)
    have cl: "clues w3 = 0" by simp
    from popped_candidate(3) [OF success(1-3)] success(4) loop.prems(5)
    have "2 \<le> count_nonzero sudoku" by (cases indices2) auto
    with count_nonzero_remove [OF b r] have "1 \<le> count_nonzero sudoku0" by (simp add: s0)
    from loop.IH(1) [OF success(1-7) s0(2) c0 cl this] success(8) show ?thesis by simp
  next
    case (cutoff c0 indices1 w1 y x indices2 w2 n sudoku0 u w3 w4)
    then show ?thesis by simp
  next
    case (restore_error c0 indices1 w1 y x indices2 w2 n sudoku0 u w3 w4 e)
    with ok show ?thesis by simp
  next
    case (continue c0 indices1 w1 y x indices2 w2 n sudoku0 u w3 w4 sudoku_n)
    note r = all_filled_board [OF f popped_candidate(1) [OF continue(1-3)] b]
    from continue(6) is_board_set_cell [OF b r(1,2), of 0]
    have s0: "sudoku0 = put sudoku y x 0" "is_board sudoku0" by simp_all
    have c0: "completes s sudoku0" using completes_zero [OF b r(1,2) c] by (simp add: s0)
    from unique_no_error [OF s0(2) c0, of depth w2] continue(7)
      pop_random_frame(2) [OF continue(2)] skip_excluded_frame [OF continue(3)] loop.prems(3)
    have cl: "clues w3 = 0" by simp
    have "clues w4 = clues w3"
    proof (cases u)
      case True
      with remove_numbers_result(1) [OF s0(2) c0, of excluded_nums w3] continue(8)
      show ?thesis by simp
    next
      case False
      with continue(8) show ?thesis by simp
    qed
    with cl continue(9) show ?thesis by simp
  qed
qed

lemma generate_without_target:
  assumes "difficulty \<notin> {''easy'', ''medium'', ''hard''}" "clues w = 0"
  shows "generate difficulty w = Inl TypeError"
proof -
  from seed_solution [of w]
  obtain w4 b where seed: "init_solve zeros False w = Inr w4" "solution w4 = Some b"
    "is_board b" "completes b b" "count_nonzero b = 81" "clues w4 = clues w" by blast
  from remove_numbers_without_target(1) [OF seed(3,4), of w4 "[]"] seed(5,6) assms(2)
  obtain w5 where "remove_numbers b [] w4 = Inr (None, w5)" by auto
  with seed(1,2) pick_clues_other [OF assms(1), of w] show ?thesis
    by (simp add: generate_unfold)
qed

section \<open>The claims\<close>

text \<open>
  C4, validator correctness. On a 9x9 grid, for a row and a column in 0..8,
  \<open>can_place\<close> raises nothing and answers True exactly when the value occurs in no cell of
  the row, in no cell of the column and in no cell of the 3x3 box whose top-left corner
  is \<open>(row div 3 * 3, col div 3 * 3)\<close>. This holds for every value and whatever the cell
  itself holds, so in particular for a value 1..9 and an empty cell.
\<close>

theorem validator_correct:
  assumes "is_board board" "y < 9" "x < 9"
  shows "can_place y x v board =
           Inr (v \<notin> set (row_cells board y) \<and> v \<notin> set (col_cells board x)
                \<and> v \<notin> set (box_cells board y x))"
  using assms by (rule can_place_board)

theorem validator_correct_witness:
  "is_board example_puzzle \<and> (0::nat) < 9 \<and> (2::nat) < 9 \<and>
   can_place 0 2 4 example_puzzle = Inr True \<and> can_place 0 2 8 example_puzzle = Inr False"
proof -
  have b: "is_board example_puzzle" by code_simp
  have r: "(0::nat) < 9" "(2::nat) < 9" by simp_all
  have four: "(4 \<notin> set (row_cells example_puzzle 0) \<and> 4 \<notin> set (col_cells example_puzzle 2)
      \<and> 4 \<notin> set (box_cells example_puzzle 0 2)) = True" by code_simp
  have eight: "(8 \<notin> set (row_cells example_puzzle 0) \<and> 8 \<notin> set (col_cells example_puzzle 2)
      \<and> 8 \<notin> set (box_cells example_puzzle 0 2)) = False" by code_simp
  from validator_correct [OF b r, of 4] validator_correct [OF b r, of 8] b four eight
  show ?thesis by simp
qed

text \<open>
  C8, full grids pass through unchecked. When no cell of the grid is 0, \<open>solve\<close> draws no
  random number, checks no constraint, and stores the grid itself as the solution. The
  grid may break the rules: the witness is the grid of 81 twos.
\<close>

theorem full_grid_passthrough:
  assumes "populated board"
  shows "init_solve board False w =
           Inr (w\<lparr>solution := Some board, solve_calls := Suc (solve_calls w)\<rparr>)"
proof -
  from assms have "first_zero board = None"
    by (auto simp: first_zero_None populated_def list_all_length)
  then show ?thesis
    by (simp add: init_solve_False solve_unfold)
qed

theorem full_grid_passthrough_witness:
  "populated (replicate 9 (replicate 9 2)) \<and> is_board (replicate 9 (replicate 9 2)) \<and>
   \<not> no_repeats (replicate 9 (replicate 9 2)) \<and>
   init_solve (replicate 9 (replicate 9 2)) False (new_app [3, 1, 4]) =
     Inr \<lparr>solution = Some (replicate 9 (replicate 9 2)), clues = 0, puzzle = Some zeros,
          rng = [3, 1, 4], deepest = 0, solve_calls = 1\<rparr>"
proof -
  have p: "populated (replicate 9 (replicate 9 2))" by code_simp
  have b: "is_board (replicate 9 (replicate 9 2))" by code_simp
  have n: "\<not> no_repeats (replicate 9 (replicate 9 2))" by code_simp
  from full_grid_passthrough [OF p, of "new_app [3, 1, 4]"] p b n
  show ?thesis by (simp add: new_app_def)
qed

text \<open>
  C6, termination and recursion depth. \<open>solve\<close> is a total function: the definition above
  comes with its termination proof. On every 9x9 grid a call returns normally, and no
  call of \<open>solve\<close> is ever nested more levels below the outermost one than the grid has
  empty cells, which are at most 81. Levels are counted from 0 for the outermost call;
  the bound 81 is attained on the empty grid (lemma \<open>empty_grid_depth\<close>).
\<close>

theorem solve_terminates_within_depth:
  assumes "is_board board"
  shows "\<exists>w'. init_solve board False (w\<lparr>deepest := 0\<rparr>) = Inr w' \<and>
           deepest w' \<le> count_value 0 board \<and> count_value 0 board \<le> 81"
proof -
  let ?w = "w\<lparr>deepest := 0, solution := None, solve_calls := Suc (solve_calls w)\<rparr>"
  from solve_no_error(1) [OF assms, of 0 ?w] obtain w' where run: "solve 0 board ?w = Inr w'"
    by blast
  from solve_depth(1) [OF run] have "deepest w' \<le> count_value 0 board"
    by simp
  with run count_value_board [OF assms, of 0] show ?thesis by (simp add: init_solve_False)
qed

theorem solve_terminates_within_depth_witness:
  "is_board zeros \<and>
   (\<exists>w'. init_solve zeros False ((new_app [])\<lparr>deepest := 0\<rparr>) = Inr w' \<and>
      deepest w' \<le> count_value 0 zeros \<and> count_value 0 zeros \<le> 81)"
proof -
  have b: "is_board zeros" by code_simp
  from solve_terminates_within_depth [OF b, of "new_app []"] b show ?thesis by simp
qed

text \<open>
  C1, solver soundness. As stated the claim fails: a grid without empty cells is returned
  as its own solution, whatever it holds. The grid of 81 ones is a 9x9 grid on which
  \<open>solve\<close> succeeds, and the grid it returns repeats the value 1 in every row.
\<close>

theorem solver_soundness_counterexample:
  "is_board (replicate 9 (replicate 9 1)) \<and>
   init_solve (replicate 9 (replicate 9 1)) False (new_app []) =
     Inr \<lparr>solution = Some (replicate 9 (replicate 9 1)), clues = 0, puzzle = Some zeros,
          rng = [], deepest = 0, solve_calls = 1\<rparr> \<and>
   \<not> no_repeats (replicate 9 (replicate 9 1))"
  by code_simp

text \<open>
  C1 as amended. Take a 9x9 grid whose cells hold 0..9 and whose filled cells repeat no
  value in any row, column or box. If \<open>solve\<close> succeeds on it, the grid it returns is a
  9x9 grid, every cell of it holds a value 1..9, no row, column or box repeats a value,
  and every filled cell of the input holds the same value in it.
\<close>

theorem solver_sound:
  assumes "is_board board" "cells_in 0 9 board" "no_repeats board"
    and "init_solve board False w = Inr w'" "solution w' = Some s"
  shows "is_board s \<and> cells_in 1 9 s \<and> no_repeats s \<and> preserved board s"
proof -
  let ?w = "w\<lparr>solution := None, solve_calls := Suc (solve_calls w)\<rparr>"
  from assms(4) have run: "solve 0 board ?w = Inr w'" by (simp add: init_solve_False)
  from assms(1-3) have valid: "digits board \<and> conflict_free board"
    by (simp add: cells_in_digits no_repeats_conflict_free)
  from solve_sound(1) [OF assms(1) _ run assms(5)] valid
  have s: "is_board s" "filled s" "extends board s" "digits s" "conflict_free s" by simp_all
  then show ?thesis
    using assms(1)
    by (simp add: cells_in_solution no_repeats_conflict_free preserved_extends)
qed

theorem solver_sound_witness:
  "is_board two_missing \<and> cells_in 0 9 two_missing \<and> no_repeats two_missing \<and>
   init_solve two_missing False (new_app [4, 7]) =
     Inr \<lparr>solution = Some example_solution, clues = 0, puzzle = Some zeros,
          rng = [], deepest = 2, solve_calls = 1\<rparr> \<and>
   is_board example_solution \<and> cells_in 1 9 example_solution \<and>
   no_repeats example_solution \<and> preserved two_missing example_solution"
proof -
  have h: "is_board two_missing" "cells_in 0 9 two_missing" "no_repeats two_missing"
    by code_simp+
  have run: "init_solve two_missing False (new_app [4, 7]) =
     Inr \<lparr>solution = Some example_solution, clues = 0, puzzle = Some zeros,
          rng = [], deepest = 2, solve_calls = 1\<rparr>"
    by code_simp
  from solver_sound [OF h run] h run show ?thesis by simp
qed

text \<open>
  C7, rejection of invalid input. As stated the claim fails: nothing inspects the grid
  before the search, neither its values nor its shape. On the 9x9 grid below, which
  holds 10 in its first cell, \<open>solve\<close> draws a random number, places 9 in the empty cell and
  returns the grid, 10 included. A 10x10 grid of fives is stored as its own solution.
  On the empty 8x8 grid the search starts at the cell (0,0), draws the value 9, and the
  placement test raises IndexError when it reads the ninth cell of the row.
\<close>

theorem invalid_input_counterexample:
  "is_board ten_grid \<and> \<not> cells_in 0 9 ten_grid \<and>
   init_solve ten_grid False (new_app [8]) =
     Inr \<lparr>solution = Some (ten_grid[8 := [3, 4, 5, 2, 8, 6, 1, 7, 9]]), clues = 0,
          puzzle = Some zeros, rng = [], deepest = 1, solve_calls = 1\<rparr> \<and>
   \<not> is_board (replicate 10 (replicate 10 5)) \<and>
   init_solve (replicate 10 (replicate 10 5)) False (new_app [8]) =
     Inr \<lparr>solution = Some (replicate 10 (replicate 10 5)), clues = 0,
          puzzle = Some zeros, rng = [8], deepest = 0, solve_calls = 1\<rparr> \<and>
   \<not> is_board (replicate 8 (replicate 8 0)) \<and>
   first_zero (replicate 8 (replicate 8 0)) = Some (0, 0) \<and>
   can_place 0 0 9 (replicate 8 (replicate 8 0)) = Inl IndexError \<and>
   init_solve (replicate 8 (replicate 8 0)) False (new_app [8]) = Inl IndexError"
  by code_simp

text \<open>
  C7 as amended. \<open>solve\<close> validates nothing, it only searches. A grid of any shape
  without an empty cell is stored as the solution as it is. On every 9x9 grid, whatever
  integers its cells hold, \<open>solve\<close> raises no error and its outcome is that of the search
  alone: it ends with a solution exactly when some grid fills the input, that is, when
  the empty cells can take values 1..9 such that none of these values occurs in another
  cell of its row, column or box; and a solution it ends with fills the input, so every
  non-zero cell of the input, a value outside 0..9 included, is unchanged in it. The
  filled cells of the input are never tested, neither for their range nor against each
  other. The witness runs the search on a grid that holds 10 and can be filled, on one
  that cannot be filled, and stores a 10x10 grid of fives.
\<close>

theorem solve_validates_nothing:
  "(populated board \<longrightarrow>
      init_solve board False w =
        Inr (w\<lparr>solution := Some board, solve_calls := Suc (solve_calls w)\<rparr>)) \<and>
   (is_board board \<longrightarrow>
      (\<exists>w'. init_solve board False w = Inr w' \<and>
         (solution w' = None \<longleftrightarrow> (\<forall>s. \<not> fills s board)) \<and>
         (\<forall>s. solution w' = Some s \<longrightarrow> fills s board)))"
proof (intro conjI impI)
  assume "populated board"
  then have "first_zero board = None"
    by (auto simp: first_zero_None populated_def list_all_length)
  then show "init_solve board False w =
      Inr (w\<lparr>solution := Some board, solve_calls := Suc (solve_calls w)\<rparr>)"
    by (simp add: init_solve_False solve_unfold)
next
  assume "is_board board"
  then show "\<exists>w'. init_solve board False w = Inr w' \<and>
         (solution w' = None \<longleftrightarrow> (\<forall>s. \<not> fills s board)) \<and>
         (\<forall>s. solution w' = Some s \<longrightarrow> fills s board)"
    by (rule init_solve_fills)
qed

theorem solve_validates_nothing_witness:
  "is_board ten_grid \<and> \<not> cells_in 0 9 ten_grid \<and>
   init_solve ten_grid False (new_app [8]) =
     Inr \<lparr>solution = Some (ten_grid[8 := [3, 4, 5, 2, 8, 6, 1, 7, 9]]), clues = 0,
          puzzle = Some zeros, rng = [], deepest = 1, solve_calls = 1\<rparr> \<and>
   fills (ten_grid[8 := [3, 4, 5, 2, 8, 6, 1, 7, 9]]) ten_grid \<and>
   is_board (ten_grid[8 := [3, 4, 5, 2, 8, 6, 1, 9, 0]]) \<and>
   init_solve (ten_grid[8 := [3, 4, 5, 2, 8, 6, 1, 9, 0]]) False (new_app [8]) =
     Inr \<lparr>solution = None, clues = 0, puzzle = Some zeros, rng = [], deepest = 0,
          solve_calls = 1\<rparr> \<and>
   (\<forall>s. \<not> fills s (ten_grid[8 := [3, 4, 5, 2, 8, 6, 1, 9, 0]])) \<and>
   populated (replicate 10 (replicate 10 5)) \<and> \<not> is_board (replicate 10 (replicate 10 5)) \<and>
   init_solve (replicate 10 (replicate 10 5)) False (new_app [8]) =
     Inr \<lparr>solution = Some (replicate 10 (replicate 10 5)), clues = 0,
          puzzle = Some zeros, rng = [8], deepest = 0, solve_calls = 1\<rparr>"
proof -
  have b: "is_board ten_grid" by code_simp
  have v: "\<not> cells_in 0 9 ten_grid" by code_simp
  have run: "init_solve ten_grid False (new_app [8]) =
     Inr \<lparr>solution = Some (ten_grid[8 := [3, 4, 5, 2, 8, 6, 1, 7, 9]]), clues = 0,
          puzzle = Some zeros, rng = [], deepest = 1, solve_calls = 1\<rparr>"
    by code_simp
  have b2: "is_board (ten_grid[8 := [3, 4, 5, 2, 8, 6, 1, 9, 0]])" by code_simp
  have run2: "init_solve (ten_grid[8 := [3, 4, 5, 2, 8, 6, 1, 9, 0]]) False (new_app [8]) =
     Inr \<lparr>solution = None, clues = 0, puzzle = Some zeros, rng = [], deepest = 0,
          solve_calls = 1\<rparr>"
    by code_simp
  have p: "populated (replicate 10 (replicate 10 5))" by code_simp
  have n: "\<not> is_board (replicate 10 (replicate 10 5))" by code_simp
  from solve_validates_nothing [of ten_grid "new_app [8]"] b run
  have f: "fills (ten_grid[8 := [3, 4, 5, 2, 8, 6, 1, 7, 9]]) ten_grid" by simp
  from solve_validates_nothing [of "ten_grid[8 := [3, 4, 5, 2, 8, 6, 1, 9, 0]]" "new_app [8]"]
    b2 run2
  have f2: "\<forall>s. \<not> fills s (ten_grid[8 := [3, 4, 5, 2, 8, 6, 1, 9, 0]])" by simp
  from solve_validates_nothing [of "replicate 10 (replicate 10 5)" "new_app [8]"] p
  have "init_solve (replicate 10 (replicate 10 5)) False (new_app [8]) =
     Inr \<lparr>solution = Some (replicate 10 (replicate 10 5)), clues = 0,
          puzzle = Some zeros, rng = [8], deepest = 0, solve_calls = 1\<rparr>"
    by (simp add: new_app_def)
  with b v run f b2 run2 f2 p n show ?thesis by simp
qed

text \<open>
  C9, grids at or below the target pass through. When the grid has no more filled cells
  than the clue target, also when it has strictly fewer, \<open>remove_numbers\<close> returns the
  grid unchanged, tests nothing and draws no random number.
\<close>

theorem below_target_passthrough:
  assumes "count_nonzero board \<le> clues w"
  shows "remove_numbers board excluded w = Inr (Some board, w)"
  using assms by (simp add: remove_numbers_unfold)

theorem below_target_passthrough_witness:
  "count_nonzero example_puzzle = 30 \<and>
   count_nonzero example_puzzle \<le> clues ((new_app [2, 7])\<lparr>clues := 32\<rparr>) \<and>
   remove_numbers example_puzzle [(0, 0)] ((new_app [2, 7])\<lparr>clues := 32\<rparr>) =
     Inr (Some example_puzzle, (new_app [2, 7])\<lparr>clues := 32\<rparr>)"
proof -
  have c: "count_nonzero example_puzzle = 30" by code_simp
  then have le: "count_nonzero example_puzzle \<le> clues ((new_app [2, 7])\<lparr>clues := 32\<rparr>)"
    by simp
  from below_target_passthrough [OF le, of "[(0, 0)]"] c le show ?thesis by simp
qed

text \<open>
  C3, the procedure of the uniqueness test. Let the grid be a 9x9 grid with a
  completion \<open>s\<close>: a 9x9 grid of values 1..9 without repeats that keeps the filled cells.
  Then, for every \<open>depth\<close>, \<open>unique\<close> first obtains a reference solution from one call of
  \<open>init_solve\<close>, then makes \<open>k \<le> depth\<close> further calls, each on the same grid with the
  random source as the previous call left it, and ends in the state of the last call.
  It answers True exactly when all \<open>depth\<close> repeats give the reference; then \<open>k = depth\<close>.
  It answers False at the first repeat \<open>k\<close> that differs from the reference, after which
  no call is made. The counter \<open>solve_calls\<close> grows by \<open>1 + k\<close>.
\<close>

theorem unique_procedure:
  assumes "is_board board"
    and "is_board s" "cells_in 1 9 s" "no_repeats s" "preserved board s"
  shows "\<exists>w1 ref res w' k.
           init_solve board False w = Inr w1 \<and> solution w1 = Some ref \<and>
           unique board depth w = Inr (res, w') \<and>
           k \<le> depth \<and> solve_n board k w1 = Inr w' \<and>
           solve_calls w' = solve_calls w + 1 + k \<and>
           (\<forall>j \<in> {1..<k}. \<exists>wj. solve_n board j w1 = Inr wj \<and> solution wj = Some ref) \<and>
           res = (\<forall>j \<in> {1..depth}. \<exists>wj. solve_n board j w1 = Inr wj \<and> solution wj = Some ref) \<and>
           (res \<longrightarrow> k = depth) \<and>
           (\<not> res \<longrightarrow> 1 \<le> k \<and> solution w' \<noteq> Some ref)"
proof -
  from assms have c: "completes s board"
    by (simp add: completes_def cells_in_solution no_repeats_conflict_free preserved_extends)
  from init_solve_complete [OF assms(1) c, of w]
  obtain w1 ref where first: "init_solve board False w = Inr w1" "solution w1 = Some ref"
    "is_board ref" by auto
  from unique_loop_runs [OF assms(1) c first(3), of depth w1]
  obtain res w' k where loop: "unique_loop board (Some ref) depth w1 = Inr (res, w')"
    and k: "k \<le> depth" "solve_n board k w1 = Inr w'"
    and before: "\<forall>j. 1 \<le> j \<and> j < k \<longrightarrow> (\<exists>wj. solve_n board j w1 = Inr wj \<and> solution wj = Some ref)"
    and yes: "res \<longrightarrow> k = depth \<and> (depth = 0 \<or> solution w' = Some ref)"
    and no: "\<not> res \<longrightarrow> 1 \<le> k \<and> solution w' \<noteq> Some ref"
    by blast
  have run: "unique board depth w = Inr (res, w')"
    using first loop by (simp add: unique_def)
  have calls: "solve_calls w' = solve_calls w + 1 + k"
    using solve_n_calls [OF k(2)] init_solve_frame(3) [OF first(1)] by simp
  have all: "res = (\<forall>j \<in> {1..depth}. \<exists>wj. solve_n board j w1 = Inr wj \<and> solution wj = Some ref)"
  proof (cases res)
    case True
    with yes have kd: "k = depth" "depth = 0 \<or> solution w' = Some ref" by simp_all
    have "\<exists>wj. solve_n board j w1 = Inr wj \<and> solution wj = Some ref" if "j \<in> {1..depth}" for j
    proof (cases "j = depth")
      case True
      with that kd k(2) show ?thesis by auto
    next
      case False
      with that kd before show ?thesis by auto
    qed
    with True show ?thesis by blast
  next
    case False
    with no k have "k \<in> {1..depth}" "solve_n board k w1 = Inr w'" "solution w' \<noteq> Some ref"
      by simp_all
    then have "\<not> (\<forall>j \<in> {1..depth}. \<exists>wj. solve_n board j w1 = Inr wj \<and> solution wj = Some ref)"
      by force
    with False show ?thesis by blast
  qed
  from before have before': "\<forall>j \<in> {1..<k}. \<exists>wj. solve_n board j w1 = Inr wj \<and> solution wj = Some ref"
    by simp
  from yes have yes': "res \<longrightarrow> k = depth" by simp
  from first(1,2) run k calls before' all yes' no show ?thesis by blast
qed

theorem unique_procedure_witness:
  "is_board two_missing \<and> is_board example_solution \<and> cells_in 1 9 example_solution \<and>
   no_repeats example_solution \<and> preserved two_missing example_solution \<and>
   (\<exists>w1 ref res w' k.
      init_solve two_missing False (new_app [4, 7]) = Inr w1 \<and> solution w1 = Some ref \<and>
      unique two_missing 5 (new_app [4, 7]) = Inr (res, w') \<and>
      k \<le> 5 \<and> solve_n two_missing k w1 = Inr w' \<and>
      solve_calls w' = solve_calls (new_app [4, 7]) + 1 + k \<and>
      res = (\<forall>j \<in> {1..5}. \<exists>wj. solve_n two_missing j w1 = Inr wj \<and> solution wj = Some ref))"
proof -
  have h: "is_board two_missing" "is_board example_solution" "cells_in 1 9 example_solution"
    "no_repeats example_solution" "preserved two_missing example_solution"
    by code_simp+
  from unique_procedure [OF h, of "new_app [4, 7]" 5] h show ?thesis by blast
qed

text \<open>
  C5, exhaustion of the candidates. The code departs from the claim: a filled
  coordinate outside the blacklist can be left untried when None is returned. The
  example puzzle has 30 clues; let the target be 29 and let the blacklist hold the
  first 29 filled coordinates. The cell (8,8) is filled and not blacklisted, and the
  blacklist is not longer than the target. With the random source always answering 0
  the coordinates are popped in row-major order, so (8,8) comes last: \<open>remove_numbers\<close>
  returns None with no call of the solver at all.
\<close>

theorem candidate_exhaustion_fails:
  "count_nonzero example_puzzle = 30 \<and>
   cell example_puzzle 8 8 = Inr 9 \<and>
   (8, 8) \<notin> set (butlast (nonzero_indices example_puzzle)) \<and>
   length (butlast (nonzero_indices example_puzzle)) = 29 \<and>
   remove_numbers example_puzzle (butlast (nonzero_indices example_puzzle))
       ((new_app [])\<lparr>clues := 29\<rparr>) =
     Inr (None, (new_app [])\<lparr>clues := 29\<rparr>)"
  by code_simp



text \<open>
  C10, an unrecognised difficulty. As stated the claim fails where it says that no error
  is raised: on a newly constructed application the stale target is 0, the removal
  cannot reach it and returns None, and the drawing of the missing puzzle raises
  TypeError.
\<close>

theorem unknown_difficulty_counterexample:
  "''expert'' \<notin> {''easy'', ''medium'', ''hard''} \<and> clues (new_app []) = 0 \<and>
   generate ''expert'' (new_app []) = Inl TypeError"
proof -
  have c: "clues (new_app []) = 0" by (simp add: new_app_def)
  from generate_without_target [OF _ c, of "''expert''"] c show ?thesis by simp
qed

text \<open>
  C10 as amended. For a difficulty other than the three known ones none of the tests
  matches: \<open>generate\<close> does not reject the argument and draws no target. The seed solve
  runs on the state as it was and succeeds, the removal runs with the clue target
  stored before the call (0 on a newly constructed application) and leaves it as it
  is, and a puzzle that the removal returns is stored as the result. The witness is a
  run that reuses the target 40.
\<close>

theorem unknown_difficulty_keeps_target:
  assumes "difficulty \<notin> {''easy'', ''medium'', ''hard''}"
  shows "\<exists>w4 b r w5.
           init_solve zeros False w = Inr w4 \<and> solution w4 = Some b \<and> clues w4 = clues w \<and>
           remove_numbers b [] w4 = Inr (r, w5) \<and> clues w5 = clues w \<and>
           (\<forall>p. r = Some p \<longrightarrow> generate difficulty w = Inr (w5\<lparr>puzzle := Some p\<rparr>))"
proof -
  from generate_result [of difficulty w] pick_clues_other [OF assms, of w]
  show ?thesis by auto
qed

theorem unknown_difficulty_keeps_target_witness:
  "''expert'' \<notin> {''easy'', ''medium'', ''hard''} \<and>
   (\<exists>w4 b p w5.
      init_solve zeros False ((new_app [])\<lparr>clues := 40\<rparr>) = Inr w4 \<and>
      solution w4 = Some b \<and> clues w4 = 40 \<and>
      remove_numbers b [] w4 = Inr (Some p, w5) \<and> clues w5 = 40 \<and>
      generate ''expert'' ((new_app [])\<lparr>clues := 40\<rparr>) = Inr (w5\<lparr>puzzle := Some p\<rparr>))"
proof -
  let ?w = "(new_app [])\<lparr>clues := 40\<rparr>"
  have d: "''expert'' \<notin> {''easy'', ''medium'', ''hard''}" by simp
  have pick: "pick_clues ''expert'' ?w = ?w" by (rule pick_clues_other [OF d])
  have "rng ?w = []" "1 \<le> clues ?w" "clues ?w \<le> 81" by (simp_all add: new_app_def)
  with generate_succeeds [of "''expert''" ?w] pick
  obtain w' p0 where run: "generate ''expert'' ?w = Inr w'" by auto
  from unknown_difficulty_keeps_target [OF d, of ?w]
  obtain w4 b r w5 where
    k: "init_solve zeros False ?w = Inr w4" "solution w4 = Some b" "clues w4 = clues ?w"
      "remove_numbers b [] w4 = Inr (r, w5)" "clues w5 = clues ?w"
      "\<forall>p. r = Some p \<longrightarrow> generate ''expert'' ?w = Inr (w5\<lparr>puzzle := Some p\<rparr>)"
    by blast
  have "r \<noteq> None"
  proof
    assume "r = None"
    with k(1,2,4) pick have "generate ''expert'' ?w = Inl TypeError"
      by (simp add: generate_unfold)
    with run show False by simp
  qed
  then obtain p where "r = Some p" by auto
  with k d show ?thesis by (auto simp: new_app_def)
qed

end
